theory Spec2Isabelle
  imports Main "HOL-Library.Multiset"
begin

section \<open>Cards and the deck\<close>

text \<open>
  The only exception the engine can raise is JavaScript's TypeError, thrown when a
  property of \<open>null\<close> or \<open>undefined\<close> is read or written.
\<close>

datatype error = TypeError

text \<open>
  A \<open>Card\<close> object is identified by its rank and suit strings. Its mutable fields
  \<open>row\<close> and \<open>column\<close> live in the game state below; \<open>nextRank\<close> and
  \<open>prevRank\<close> are written once, by the static initialiser of \<open>Deck\<close>.
\<close>

datatype card = Card (rank: string) (suit: string)

definition RANKS :: "string list" where
  "RANKS = [''2'', ''3'', ''4'', ''5'', ''6''] @ [''7'', ''8'', ''9'', ''10'', ''J'', ''Q'', ''K'']"

text \<open>The keys of the map \<open>Card.SUITS\<close>, in insertion order.\<close>

definition SUITS :: "string list" where
  "SUITS = [''C'', ''D'', ''H'', ''S'']"

definition makeKey :: "string \<Rightarrow> string \<Rightarrow> string" where
  "makeKey r s = r @ s"

definition key :: "card \<Rightarrow> string" where
  "key c = makeKey (rank c) (suit c)"

definition isBlank :: "card \<Rightarrow> bool" where
  "isBlank c = (suit c = ''B'')"

definition CARDS :: "card list" where
  "CARDS = concat (map (\<lambda>s. map (\<lambda>r. Card r s) RANKS) SUITS)
     @ [Card ''B1'' ''B'', Card ''B2'' ''B'', Card ''B3'' ''B'', Card ''B4'' ''B'']"

text \<open>\<open>new Map(pairs)\<close>: a later pair overrides an earlier one with the same key.\<close>

definition CARDS_BY_KEY :: "string \<Rightarrow> card option" where
  "CARDS_BY_KEY = map_of (rev (map (\<lambda>c. (key c, c)) CARDS))"

text \<open>\<open>Array.prototype.indexOf\<close>: the first index of the element, or \<open>-1\<close>.\<close>

fun indexOf :: "'a list \<Rightarrow> 'a \<Rightarrow> int" where
  "indexOf [] x = - 1"
| "indexOf (y # ys) x =
     (if y = x then 0 else (let i = indexOf ys x in if i < 0 then - 1 else i + 1))"

text \<open>Reading \<open>xs[i]\<close>: \<open>undefined\<close> (here \<open>None\<close>) outside the array.\<close>

definition at :: "'a list \<Rightarrow> int \<Rightarrow> 'a option" where
  "at xs i = (if 0 \<le> i \<and> i < int (length xs) then Some (xs ! nat i) else None)"

text \<open>
  The static initialiser \<open>Deck._\<close>. Both \<open>null\<close> (the constructor's value) and
  \<open>undefined\<close> (a key missing from \<open>CARDS_BY_KEY\<close>) are \<open>None\<close>. For a blank,
  \<open>indexOf\<close> is \<open>-1\<close>, so the rank looked up for \<open>nextRank\<close> is \<open>RANKS[0]\<close>
  and the key \<open>2B\<close> is not in the map.
\<close>

definition prevRank :: "card \<Rightarrow> card option" where
  "prevRank c =
     (case at RANKS (indexOf RANKS (rank c) - 1) of
        None \<Rightarrow> None
      | Some r \<Rightarrow> CARDS_BY_KEY (makeKey r (suit c)))"

definition nextRank :: "card \<Rightarrow> card option" where
  "nextRank c =
     (case at RANKS (indexOf RANKS (rank c) + 1) of
        None \<Rightarrow> None
      | Some r \<Rightarrow> CARDS_BY_KEY (makeKey r (suit c)))"

definition getCardsByRank :: "string \<Rightarrow> card list" where
  "getCardsByRank r = filter (\<lambda>c. rank c = r) CARDS"

definition getBlanks :: "card list" where
  "getBlanks = filter isBlank CARDS"

section \<open>The game state\<close>

text \<open>
  \<open>pos\<close> holds the fields \<open>row\<close> and \<open>column\<close> of every card object. Every write in
  the source sets the two together (both \<open>null\<close> in the constructor and in
  \<open>clearUnfinished\<close>, both numbers in \<open>deal\<close>, both exchanged in \<open>_swap\<close>), so a
  position is \<open>None\<close> or a pair. A cell of a row is \<open>None\<close> where the JavaScript
  array has a hole (a read there gives \<open>undefined\<close>).
\<close>

record game =
  stock :: "card list"
  rows :: "card option list list"
  deals :: nat
  pos :: "card \<Rightarrow> (nat \<times> nat) option"

definition initial :: game where
  "initial = \<lparr> stock = CARDS, rows = [[], [], [], []], deals = 0, pos = (\<lambda>c. None) \<rparr>"

text \<open>\<open>row[k]\<close> for a row array: \<open>undefined\<close> outside the array and at a hole.\<close>

definition elem :: "card option list \<Rightarrow> nat \<Rightarrow> card option" where
  "elem row k = (if k < length row then row ! k else None)"

text \<open>
  \<open>this.rows[card.row][card.column - 1]\<close>: \<open>this.rows[null]\<close> and a row index outside
  \<open>this.rows\<close> are \<open>undefined\<close>, and indexing \<open>undefined\<close> throws; index \<open>-1\<close> of a
  row is \<open>undefined\<close>.
\<close>

definition cardToLeft :: "game \<Rightarrow> card \<Rightarrow> error + card option" where
  "cardToLeft g c =
     (case pos g c of
        None \<Rightarrow> Inl TypeError
      | Some (r, k) \<Rightarrow>
          if r < length (rows g)
          then Inr (if k = 0 then None else elem (rows g ! r) (k - 1))
          else Inl TypeError)"

definition cardToRight :: "game \<Rightarrow> card \<Rightarrow> error + card option" where
  "cardToRight g c =
     (case pos g c of
        None \<Rightarrow> Inl TypeError
      | Some (r, k) \<Rightarrow>
          if r < length (rows g)
          then Inr (elem (rows g ! r) (k + 1))
          else Inl TypeError)"

text \<open>A JavaScript \<open>Set\<close> is a list without duplicates, in insertion order.\<close>

definition add :: "'a \<Rightarrow> 'a list \<Rightarrow> 'a list" where
  "add x xs = (if x \<in> set xs then xs else xs @ [x])"

subsection \<open>getMovableCards\<close>

text \<open>
  The loop over the blanks. The set holds whatever \<open>cardToLeft.nextRank\<close> is, so its
  elements are optional cards.
\<close>

fun movableLoop :: "game \<Rightarrow> card list \<Rightarrow> card option list \<Rightarrow> error + card option list" where
  "movableLoop g [] movable = Inr movable"
| "movableLoop g (blank # blanks) movable =
     (case pos g blank of
        None \<Rightarrow> movableLoop g blanks movable
      | Some (r, k) \<Rightarrow>
          if k = 0
          then movableLoop g blanks (fold add (map Some (getCardsByRank ''2'')) movable)
          else (case cardToLeft g blank of
                  Inl e \<Rightarrow> Inl e
                | Inr None \<Rightarrow> movableLoop g blanks movable
                | Inr (Some l) \<Rightarrow>
                    if \<not> isBlank l \<and> rank l \<noteq> ''K''
                    then movableLoop g blanks (add (nextRank l) movable)
                    else movableLoop g blanks movable))"

definition getMovableCards :: "game \<Rightarrow> error + card option list" where
  "getMovableCards g = movableLoop g getBlanks []"

subsection \<open>getFinalizedCards\<close>

text \<open>Facts about the rank links that the walk along a row needs in order to end.\<close>

lemma RANKS_distinct: "distinct RANKS"
  by (simp add: RANKS_def)

lemma CARDS_BY_KEY_SomeD: "CARDS_BY_KEY k = Some n \<Longrightarrow> n \<in> set CARDS \<and> key n = k"
  unfolding CARDS_BY_KEY_def by (auto dest!: map_of_SomeD)

lemma CARDS_cases:
  "n \<in> set CARDS \<Longrightarrow>
     (rank n \<in> set RANKS \<and> suit n \<in> set SUITS) \<or>
     (rank n \<in> {''B1'', ''B2'', ''B3'', ''B4''} \<and> suit n = ''B'')"
  unfolding CARDS_def by auto

lemma RANKS_prefix_free:
  "r \<in> set RANKS \<Longrightarrow> r' \<in> set RANKS \<Longrightarrow> r @ s = r' @ s' \<Longrightarrow> r = r'"
  unfolding RANKS_def by auto

lemma blank_rank_no_prefix:
  "b \<in> {''B1'', ''B2'', ''B3'', ''B4''} \<Longrightarrow> r' \<in> set RANKS \<Longrightarrow> b @ s \<noteq> r' @ s'"
  unfolding RANKS_def by auto

lemma key_rank:
  assumes "n \<in> set CARDS" and "r \<in> set RANKS" and "key n = r @ s"
  shows "rank n = r"
proof -
  from CARDS_cases[OF assms(1)] show ?thesis
  proof
    assume "rank n \<in> set RANKS \<and> suit n \<in> set SUITS"
    then show ?thesis
      using assms(2,3) RANKS_prefix_free[of "rank n" r "suit n" s]
      by (simp add: key_def makeKey_def)
  next
    assume "rank n \<in> {''B1'', ''B2'', ''B3'', ''B4''} \<and> suit n = ''B''"
    then show ?thesis
      using assms(2,3) blank_rank_no_prefix[of "rank n" r "suit n" s]
      by (simp add: key_def makeKey_def)
  qed
qed

lemma indexOf_nth: "distinct xs \<Longrightarrow> i < length xs \<Longrightarrow> indexOf xs (xs ! i) = int i"
proof (induction xs arbitrary: i)
  case Nil
  then show ?case by simp
next
  case (Cons a xs)
  show ?case
  proof (cases i)
    case 0
    then show ?thesis by simp
  next
    case (Suc j)
    with Cons show ?thesis by (auto simp: Let_def)
  qed
qed

lemma nextRank_SomeD:
  assumes "nextRank c = Some n"
  shows "n \<in> set CARDS"
    and "rank n \<in> set RANKS"
    and "suit n = suit c"
    and "indexOf RANKS (rank n) = indexOf RANKS (rank c) + 1"
    and "indexOf RANKS (rank n) < 12"
proof -
  let ?i = "indexOf RANKS (rank c) + 1"
  from assms obtain r where r: "at RANKS ?i = Some r"
    and k: "CARDS_BY_KEY (makeKey r (suit c)) = Some n"
    by (auto simp: nextRank_def split: option.splits)
  from r have b: "0 \<le> ?i" "?i < int (length RANKS)" and rr: "r = RANKS ! nat ?i"
    by (auto simp: at_def split: if_splits)
  then have rin: "r \<in> set RANKS" by simp
  from CARDS_BY_KEY_SomeD[OF k] have n: "n \<in> set CARDS" and kn: "key n = r @ suit c"
    by (auto simp: makeKey_def)
  from n rin kn have rn: "rank n = r" by (rule key_rank)
  have "indexOf RANKS r = ?i"
    using indexOf_nth[OF RANKS_distinct, of "nat ?i"] b rr by simp
  with rn b show "indexOf RANKS (rank n) = indexOf RANKS (rank c) + 1"
    and "indexOf RANKS (rank n) < 12"
    by (simp_all add: RANKS_def)
  from n show "n \<in> set CARDS" .
  from rn rin show "rank n \<in> set RANKS" by simp
  from kn rn show "suit n = suit c" by (simp add: key_def makeKey_def)
qed

text \<open>
  The \<open>while\<close> loop of \<open>getFinalizedCards\<close>: \<open>lastGoodCard\<close> and the set built so
  far. \<open>cardToRight\<close> is only called when \<open>next\<close> is a card.
\<close>

function walk :: "game \<Rightarrow> card \<Rightarrow> card list \<Rightarrow> error + card list" where
  "walk g lastGoodCard finalized =
     (case nextRank lastGoodCard of
        None \<Rightarrow> Inr finalized
      | Some n \<Rightarrow>
          (case cardToRight g lastGoodCard of
             Inl e \<Rightarrow> Inl e
           | Inr right \<Rightarrow>
               if right = Some n then walk g n (add n finalized) else Inr finalized))"
  by pat_completeness auto
termination
proof (relation "measure (\<lambda>(g, c, f). nat (12 - indexOf RANKS (rank c)))")
  show "wf (measure (\<lambda>(g, c, f). nat (12 - indexOf RANKS (rank c))))"
    by simp
next
  fix g :: game and lastGoodCard n :: card and finalized :: "card list"
  assume "nextRank lastGoodCard = Some n"
  from nextRank_SomeD(4,5)[OF this]
  show "((g, n, add n finalized), (g, lastGoodCard, finalized))
      \<in> measure (\<lambda>(g, c, f). nat (12 - indexOf RANKS (rank c)))"
    by simp
qed

declare walk.simps [simp del]

text \<open>The loop over the rows.\<close>

fun finalizedLoop :: "game \<Rightarrow> card option list list \<Rightarrow> card list \<Rightarrow> error + card list" where
  "finalizedLoop g [] finalized = Inr finalized"
| "finalizedLoop g (row # rest) finalized =
     (if length row = 0 then finalizedLoop g rest finalized
      else (case elem row 0 of
              None \<Rightarrow> Inl TypeError
            | Some lastGoodCard \<Rightarrow>
                if rank lastGoodCard \<noteq> ''2'' then finalizedLoop g rest finalized
                else (case walk g lastGoodCard (add lastGoodCard finalized) of
                        Inl e \<Rightarrow> Inl e
                      | Inr finalized' \<Rightarrow> finalizedLoop g rest finalized')))"

definition getFinalizedCards :: "game \<Rightarrow> error + card list" where
  "getFinalizedCards g = finalizedLoop g (rows g) []"

section \<open>Operations\<close>

subsection \<open>clearUnfinished\<close>

text \<open>\<open>finalizedCards.has(card)\<close>, where \<open>card\<close> may be \<open>undefined\<close>.\<close>

definition has :: "card list \<Rightarrow> card option \<Rightarrow> bool" where
  "has finalized x = (case x of None \<Rightarrow> False | Some c \<Rightarrow> c \<in> set finalized)"

text \<open>The inner loop: the column index at which it breaks, if it does.\<close>

fun firstUnfinished :: "card list \<Rightarrow> card option list \<Rightarrow> nat option" where
  "firstUnfinished finalized [] = None"
| "firstUnfinished finalized (x # xs) =
     (if \<not> has finalized x then Some 0
      else map_option Suc (firstUnfinished finalized xs))"

text \<open>
  The outer loop: each row is replaced by its slice before the break, and the slice
  from the break on is pushed to the stock, holes included.
\<close>

fun clearLoop ::
  "card list \<Rightarrow> card option list list \<Rightarrow> card option list
     \<Rightarrow> card option list list \<times> card option list" where
  "clearLoop finalized [] st = ([], st)"
| "clearLoop finalized (row # rest) st =
     (case firstUnfinished finalized row of
        None \<Rightarrow> (let (rs, st') = clearLoop finalized rest st in (row # rs, st'))
      | Some colIndex \<Rightarrow>
          (let (rs, st') = clearLoop finalized rest (st @ drop colIndex row)
           in (take colIndex row # rs, st')))"

text \<open>
  The last loop writes \<open>null\<close> to both fields of every element of the stock; an
  \<open>undefined\<close> element throws.
\<close>

fun resetLoop ::
  "card option list \<Rightarrow> (card \<Rightarrow> (nat \<times> nat) option)
     \<Rightarrow> error + card list \<times> (card \<Rightarrow> (nat \<times> nat) option)" where
  "resetLoop [] p = Inr ([], p)"
| "resetLoop (None # xs) p = Inl TypeError"
| "resetLoop (Some c # xs) p =
     (case resetLoop xs (p(c := None)) of
        Inl e \<Rightarrow> Inl e
      | Inr (cs, p') \<Rightarrow> Inr (c # cs, p'))"

definition clearUnfinished :: "game \<Rightarrow> error + game" where
  "clearUnfinished g =
     (case getFinalizedCards g of
        Inl e \<Rightarrow> Inl e
      | Inr finalizedCards \<Rightarrow>
          (let (rs, st) = clearLoop finalizedCards (rows g) (map Some (stock g))
           in case resetLoop st (pos g) of
                Inl e \<Rightarrow> Inl e
              | Inr (cs, p) \<Rightarrow> Inr (g\<lparr> stock := cs, rows := rs, pos := p \<rparr>)))"

subsection \<open>deal\<close>

text \<open>
  \<open>shuffled\<close>: the loop runs \<open>i\<close> from \<open>length - 1\<close> down to \<open>1\<close>. The index
  \<open>j = Math.floor(Math.random() * (i + 1))\<close> is any number from \<open>0\<close> to \<open>i\<close>; the
  random choices are a function \<open>rnd\<close>, read as \<open>j = rnd i mod (i + 1)\<close>, so that
  every \<open>rnd\<close> is an outcome and every outcome is some \<open>rnd\<close>.
\<close>

primrec shuffleLoop :: "(nat \<Rightarrow> nat) \<Rightarrow> nat \<Rightarrow> 'a list \<Rightarrow> 'a list" where
  "shuffleLoop rnd 0 xs = xs"
| "shuffleLoop rnd (Suc i) xs =
     (let j = rnd (Suc i) mod (Suc i + 1)
      in shuffleLoop rnd i (xs[Suc i := xs ! j, j := xs ! Suc i]))"

definition shuffled :: "(nat \<Rightarrow> nat) \<Rightarrow> 'a list \<Rightarrow> 'a list" where
  "shuffled rnd xs = shuffleLoop rnd (length xs - 1) xs"

text \<open>
  The \<open>while\<close> loop that fills one row: \<open>shift\<close> on an empty stock gives
  \<open>undefined\<close>, and writing its \<open>row\<close> throws.
\<close>

function dealRow ::
  "nat \<Rightarrow> card option list \<Rightarrow> card list \<Rightarrow> (card \<Rightarrow> (nat \<times> nat) option)
     \<Rightarrow> error + card option list \<times> card list \<times> (card \<Rightarrow> (nat \<times> nat) option)" where
  "dealRow rowIndex row st p =
     (if length row < 13
      then (case st of
              [] \<Rightarrow> Inl TypeError
            | c # st' \<Rightarrow>
                dealRow rowIndex (row @ [Some c]) st' (p(c := Some (rowIndex, length row))))
      else Inr (row, st, p))"
  by pat_completeness auto
termination
  by (relation "measure (\<lambda>(i, row, st, p). 13 - length row)") auto

declare dealRow.simps [simp del]

fun dealLoop ::
  "nat \<Rightarrow> card option list list \<Rightarrow> card list \<Rightarrow> (card \<Rightarrow> (nat \<times> nat) option)
     \<Rightarrow> error + card option list list \<times> card list \<times> (card \<Rightarrow> (nat \<times> nat) option)" where
  "dealLoop rowIndex [] st p = Inr ([], st, p)"
| "dealLoop rowIndex (row # rest) st p =
     (case dealRow rowIndex row st p of
        Inl e \<Rightarrow> Inl e
      | Inr (row', st', p') \<Rightarrow>
          (case dealLoop (Suc rowIndex) rest st' p' of
             Inl e \<Rightarrow> Inl e
           | Inr (rs, st'', p'') \<Rightarrow> Inr (row' # rs, st'', p'')))"

definition deal :: "(nat \<Rightarrow> nat) \<Rightarrow> game \<Rightarrow> error + game" where
  "deal rnd g =
     (case getMovableCards g of
        Inl e \<Rightarrow> Inl e
      | Inr movable \<Rightarrow>
          if length movable > 0 then Inr g
          else (case clearUnfinished g of
                  Inl e \<Rightarrow> Inl e
                | Inr self \<Rightarrow>
                    (case dealLoop 0 (rows self) (shuffled rnd (stock self)) (pos self) of
                       Inl e \<Rightarrow> Inl e
                     | Inr (rs, st, p) \<Rightarrow>
                         Inr \<lparr> stock = st, rows = rs, deals = deals self + 1, pos = p \<rparr>)))"

subsection \<open>move\<close>

text \<open>
  \<open>row[k] = card\<close>: inside the array the cell is replaced; at \<open>k = length\<close> the
  array grows by one; beyond, it grows and the cells in between are holes.
\<close>

definition writeCell :: "card option list \<Rightarrow> nat \<Rightarrow> card \<Rightarrow> card option list" where
  "writeCell row k c =
     (if k < length row then row[k := Some c]
      else row @ replicate (k - length row) None @ [Some c])"

text \<open>
  \<open>this.rows[x.row][x.column] = x\<close>: \<open>this.rows[null]\<close> and a row index outside
  \<open>this.rows\<close> are \<open>undefined\<close>, and writing a property of \<open>undefined\<close> throws.
\<close>

definition setCell ::
  "card option list list \<Rightarrow> (nat \<times> nat) option \<Rightarrow> card \<Rightarrow> error + card option list list" where
  "setCell rs p c =
     (case p of
        None \<Rightarrow> Inl TypeError
      | Some (r, k) \<Rightarrow>
          if r < length rs then Inr (rs[r := writeCell (rs ! r) k c]) else Inl TypeError)"

definition swap :: "game \<Rightarrow> card \<Rightarrow> card \<Rightarrow> error + game" where
  "swap g crd dest =
     (let p = (pos g)(crd := pos g dest, dest := pos g crd)
      in case setCell (rows g) (p crd) crd of
           Inl e \<Rightarrow> Inl e
         | Inr rs \<Rightarrow>
             (case setCell rs (p dest) dest of
                Inl e \<Rightarrow> Inl e
              | Inr rs' \<Rightarrow> Inr (g\<lparr> rows := rs', pos := p \<rparr>)))"

text \<open>
  The fields \<open>row\<close> and \<open>column\<close> as JavaScript reads them in a comparison or a
  subtraction: \<open>null\<close> counts as \<open>0\<close> in \<open>a.row - b.row\<close> and \<open>c.row > card.row\<close>,
  and \<open>null\<close> is not \<open>0\<close> for \<open>===\<close>.
\<close>

definition rowNum :: "game \<Rightarrow> card \<Rightarrow> nat" where
  "rowNum g c = (case pos g c of None \<Rightarrow> 0 | Some (r, k) \<Rightarrow> r)"

definition column :: "game \<Rightarrow> card \<Rightarrow> nat option" where
  "column g c = map_option snd (pos g c)"

definition move :: "card \<Rightarrow> game \<Rightarrow> error + game" where
  "move crd g =
     (if rank crd = ''2''
      then (let blanksFirstColumn =
                  sort_key (rowNum g) (filter (\<lambda>c. column g c = Some 0) getBlanks)
            in if length blanksFirstColumn > 0
               then (if column g crd \<noteq> Some 0
                     then swap g crd (hd blanksFirstColumn)
                     else (let blanksAfterCurrent =
                                 filter (\<lambda>c. rowNum g c > rowNum g crd) blanksFirstColumn
                           in if length blanksAfterCurrent > 0
                              then swap g crd (hd blanksAfterCurrent)
                              else swap g crd (hd blanksFirstColumn)))
               else Inr g)
      else (case prevRank crd of
              None \<Rightarrow> Inl TypeError
            | Some nextLowest \<Rightarrow>
                (case pos g nextLowest of
                   None \<Rightarrow> Inl TypeError
                 | Some (r, k) \<Rightarrow>
                     if r < length (rows g)
                     then (if int k < int (length (rows g ! r)) - 1
                           then (case elem (rows g ! r) (k + 1) of
                                   None \<Rightarrow> Inl TypeError
                                 | Some dest \<Rightarrow>
                                     if isBlank dest then swap g crd dest else Inr g)
                           else Inr g)
                     else Inl TypeError)))"

section \<open>Reachable states\<close>

inductive reachable :: "game \<Rightarrow> bool" where
  r_initial: "reachable initial"
| r_deal: "reachable g \<Longrightarrow> deal rnd g = Inr g' \<Longrightarrow> reachable g'"
| r_move: "reachable g \<Longrightarrow> move c g = Inr g' \<Longrightarrow> reachable g'"
| r_clear: "reachable g \<Longrightarrow> clearUnfinished g = Inr g' \<Longrightarrow> reachable g'"

section \<open>The catalog\<close>

text \<open>
  Claim C9. In each suit, \<open>nextRank\<close> of the card of the \<open>i\<close>-th rank is the card of
  the next rank of \<open>RANKS\<close> in the same suit and \<open>prevRank\<close> the card of the previous
  rank; the king (\<open>RANKS ! 11\<close>) has no \<open>nextRank\<close>, the two (\<open>RANKS ! 0\<close>) has no
  \<open>prevRank\<close>, and each of the four blanks has neither. Every card of the deck that is
  not a blank is such a card. The links are functions of the card alone: no operation
  of the game changes them.
\<close>

theorem successor_predecessor_contract:
  "(\<forall>s\<in>set SUITS. \<forall>i\<in>{..<12}.
      Card (RANKS ! i) s \<in> set CARDS \<and>
      nextRank (Card (RANKS ! i) s) = (if i = 11 then None else Some (Card (RANKS ! Suc i) s)) \<and>
      prevRank (Card (RANKS ! i) s) = (if i = 0 then None else Some (Card (RANKS ! (i - 1)) s)))
   \<and> (\<forall>c\<in>set CARDS. isBlank c \<longrightarrow> nextRank c = None \<and> prevRank c = None)
   \<and> (\<forall>c\<in>set CARDS. \<not> isBlank c \<longrightarrow> (\<exists>s\<in>set SUITS. \<exists>i\<in>{..<12}. c = Card (RANKS ! i) s))
   \<and> length getBlanks = 4 \<and> RANKS ! 0 = ''2'' \<and> RANKS ! 11 = ''K''"
  by code_simp

theorem successor_predecessor_contract_witness:
  "nextRank (Card ''7'' ''H'') = Some (Card ''8'' ''H'') \<and>
   prevRank (Card ''7'' ''H'') = Some (Card ''6'' ''H'') \<and>
   nextRank (Card ''K'' ''S'') = None \<and> prevRank (Card ''2'' ''C'') = None \<and>
   isBlank (Card ''B3'' ''B'') \<and> nextRank (Card ''B3'' ''B'') = None \<and>
   prevRank (Card ''B3'' ''B'') = None"
proof -
  have s: "''H'' \<in> set SUITS" "''S'' \<in> set SUITS" "''C'' \<in> set SUITS"
    by (simp_all add: SUITS_def)
  have b: "Card ''B3'' ''B'' \<in> set CARDS" by (simp add: CARDS_def)
  have r: "RANKS ! 5 = ''7''" "RANKS ! 6 = ''8''" "RANKS ! 4 = ''6''" "RANKS ! 11 = ''K''" "RANKS ! 0 = ''2''"
    by (simp_all add: RANKS_def)
  note c = successor_predecessor_contract
  from c s(1) have "nextRank (Card (RANKS ! 5) ''H'') = Some (Card (RANKS ! Suc 5) ''H'')
     \<and> prevRank (Card (RANKS ! 5) ''H'') = Some (Card (RANKS ! (5 - 1)) ''H'')"
    by (auto dest!: bspec[where x="''H''"] bspec[where x="5::nat"])
  moreover from c s(2) have "nextRank (Card (RANKS ! 11) ''S'') = None"
    by (auto dest!: bspec[where x="''S''"] bspec[where x="11::nat"])
  moreover from c s(3) have "prevRank (Card (RANKS ! 0) ''C'') = None"
    by (auto dest!: bspec[where x="''C''"] bspec[where x="0::nat"])
  moreover from c b have "isBlank (Card ''B3'' ''B'') \<longrightarrow> nextRank (Card ''B3'' ''B'') = None \<and>
   prevRank (Card ''B3'' ''B'') = None" by blast
  moreover have "isBlank (Card ''B3'' ''B'')" by (simp add: isBlank_def)
  ultimately show ?thesis using r by simp
qed

section \<open>The invariant of the reachable states\<close>

text \<open>
  There are four rows of at most thirteen cells; every cell holds a card of the deck
  whose position is that cell, and a card with a position is in the cell there; the
  cards of the stock are distinct cards of the deck without a position; stock and rows
  hold 52 cards together.
\<close>

definition wellformed :: "game \<Rightarrow> bool" where
  "wellformed g \<longleftrightarrow>
     length (rows g) = 4 \<and>
     (\<forall>r<length (rows g). length (rows g ! r) \<le> 13) \<and>
     (\<forall>r<length (rows g). \<forall>k<length (rows g ! r).
        \<exists>c. rows g ! r ! k = Some c \<and> c \<in> set CARDS \<and> pos g c = Some (r, k)) \<and>
     (\<forall>c r k. pos g c = Some (r, k) \<longrightarrow>
        r < length (rows g) \<and> k < length (rows g ! r) \<and> rows g ! r ! k = Some c) \<and>
     (\<forall>c\<in>set (stock g). pos g c = None \<and> c \<in> set CARDS) \<and>
     distinct (stock g) \<and>
     length (stock g) + sum_list (map length (rows g)) = 52"

lemma CARDS_distinct: "distinct CARDS"
  by code_simp

lemma CARDS_length: "length CARDS = 52"
  by code_simp

lemma wellformed_initial: "wellformed initial"
  by (auto simp: wellformed_def initial_def CARDS_distinct CARDS_length less_Suc_eq)

lemma firstUnfinished_None:
  "firstUnfinished f row = None \<Longrightarrow> takeWhile (has f) row = row \<and> dropWhile (has f) row = []"
  by (induction row) (auto split: if_splits)

lemma firstUnfinished_Some:
  "firstUnfinished f row = Some k \<Longrightarrow>
     take k row = takeWhile (has f) row \<and> drop k row = dropWhile (has f) row"
  by (induction row arbitrary: k) (auto split: if_splits)

lemma clearLoop_eq:
  "clearLoop f rs st =
     (map (takeWhile (has f)) rs, st @ concat (map (dropWhile (has f)) rs))"
proof (induction rs arbitrary: st)
  case Nil
  then show ?case by simp
next
  case (Cons row rest)
  show ?case
  proof (cases "firstUnfinished f row")
    case None
    from firstUnfinished_None[OF None] Cons None show ?thesis
      by (simp del: takeWhile_eq_all_conv dropWhile_eq_Nil_conv)
  next
    case (Some k)
    with Cons firstUnfinished_Some[OF Some] show ?thesis by simp
  qed
qed

lemma resetLoop_eq:
  "resetLoop xs p =
     (if None \<in> set xs then Inl TypeError
      else Inr (map the xs, \<lambda>c. if Some c \<in> set xs then None else p c))"
proof (induction xs arbitrary: p)
  case Nil
  then show ?case by simp
next
  case (Cons x xs)
  show ?case
  proof (cases x)
    case None
    then show ?thesis by simp
  next
    case (Some c)
    with Cons show ?thesis by (auto simp: fun_eq_iff)
  qed
qed

lemma wf_rows: "wellformed g \<Longrightarrow> length (rows g) = 4"
  by (simp add: wellformed_def)

lemma wf_len: "wellformed g \<Longrightarrow> r < 4 \<Longrightarrow> length (rows g ! r) \<le> 13"
  by (simp add: wellformed_def)

lemma wf_cell:
  "wellformed g \<Longrightarrow> r < 4 \<Longrightarrow> k < length (rows g ! r) \<Longrightarrow>
     \<exists>c. rows g ! r ! k = Some c \<and> c \<in> set CARDS \<and> pos g c = Some (r, k)"
  by (simp add: wellformed_def)

lemma wf_pos:
  "wellformed g \<Longrightarrow> pos g c = Some (r, k) \<Longrightarrow>
     r < 4 \<and> k < length (rows g ! r) \<and> rows g ! r ! k = Some c"
  unfolding wellformed_def by metis

lemma wf_stock: "wellformed g \<Longrightarrow> c \<in> set (stock g) \<Longrightarrow> pos g c = None \<and> c \<in> set CARDS"
  by (simp add: wellformed_def)

lemma wf_distinct: "wellformed g \<Longrightarrow> distinct (stock g)"
  by (simp add: wellformed_def)

lemma wf_count: "wellformed g \<Longrightarrow> length (stock g) + sum_list (map length (rows g)) = 52"
  by (simp add: wellformed_def)

lemma wf_pos_CARDS:
  assumes "wellformed g" and "pos g c = Some (r, k)"
  shows "c \<in> set CARDS"
proof -
  from wf_pos[OF assms] have a: "r < 4" "k < length (rows g ! r)" "rows g ! r ! k = Some c"
    by simp_all
  from wf_cell[OF assms(1) a(1,2)] a(3) show ?thesis by auto
qed

text \<open>Membership in the tails that \<open>clearUnfinished\<close> cuts off.\<close>

lemma in_drop_nth:
  "x \<in> set (drop n xs) \<longleftrightarrow> (\<exists>k. n \<le> k \<and> k < length xs \<and> xs ! k = x)"
proof
  assume "x \<in> set (drop n xs)"
  then obtain i where "i < length xs - n" "drop n xs ! i = x"
    by (auto simp: in_set_conv_nth)
  then have "n \<le> n + i \<and> n + i < length xs \<and> xs ! (n + i) = x" by simp
  then show "\<exists>k. n \<le> k \<and> k < length xs \<and> xs ! k = x" by blast
next
  assume "\<exists>k. n \<le> k \<and> k < length xs \<and> xs ! k = x"
  then obtain k where k: "n \<le> k" "k < length xs" "xs ! k = x" by blast
  then have "k - n < length (drop n xs)" "drop n xs ! (k - n) = x" by simp_all
  then show "x \<in> set (drop n xs)" by (metis nth_mem)
qed

lemma in_dropWhile_nth:
  "x \<in> set (dropWhile P xs) \<longleftrightarrow>
     (\<exists>k. length (takeWhile P xs) \<le> k \<and> k < length xs \<and> xs ! k = x)"
  by (simp add: dropWhile_eq_drop in_drop_nth)

lemma in_tails_nth:
  "x \<in> set (concat (map (dropWhile P) rs)) \<longleftrightarrow>
     (\<exists>r k. r < length rs \<and> length (takeWhile P (rs ! r)) \<le> k \<and> k < length (rs ! r)
        \<and> rs ! r ! k = x)"
proof -
  have "x \<in> set (concat (map (dropWhile P) rs)) \<longleftrightarrow>
      (\<exists>r<length rs. x \<in> set (dropWhile P (rs ! r)))"
    by (auto simp: in_set_conv_nth[of _ rs] intro: nth_mem)
  then show ?thesis by (auto simp: in_dropWhile_nth)
qed

lemma sum_length_take_drop:
  "sum_list (map length (map (takeWhile P) rs)) + length (concat (map (dropWhile P) rs))
     = sum_list (map length rs)"
proof (induction rs)
  case Nil
  then show ?case by simp
next
  case (Cons row rest)
  have "length (takeWhile P row) + length (dropWhile P row) = length row"
    by (metis length_append takeWhile_dropWhile_id)
  with Cons show ?case by simp
qed

lemma distinct_row_cards:
  assumes "\<And>k. k < length row \<Longrightarrow> \<exists>c. row ! k = Some c \<and> p c = Some (r, k)"
  shows "distinct (map the row)"
proof -
  have "the (row ! i) \<noteq> the (row ! j)" if "i < length row" "j < length row" "i \<noteq> j" for i j
  proof -
    from assms[OF that(1)] obtain c where c: "row ! i = Some c" "p c = Some (r, i)" by blast
    from assms[OF that(2)] obtain d where d: "row ! j = Some d" "p d = Some (r, j)" by blast
    from c d that(3) show ?thesis by auto
  qed
  then show ?thesis by (simp add: distinct_conv_nth)
qed

lemma distinct_tails:
  assumes "\<And>r k. r < length rs \<Longrightarrow> k < length (rs ! r)
             \<Longrightarrow> \<exists>c. rs ! r ! k = Some c \<and> p c = Some (off + r, k)"
  shows "distinct (map the (concat (map (dropWhile P) rs)))"
  using assms
proof (induction rs arbitrary: off)
  case Nil
  then show ?case by simp
next
  case (Cons row rest)
  have row: "\<exists>c. row ! k = Some c \<and> p c = Some (off, k)" if "k < length row" for k
    using Cons.prems[of 0 k] that by simp
  have rest: "\<exists>c. rest ! r ! k = Some c \<and> p c = Some (Suc off + r, k)"
    if "r < length rest" "k < length (rest ! r)" for r k
    using Cons.prems[of "Suc r" k] that by simp
  have d1: "distinct (map the (dropWhile P row))"
    using distinct_row_cards[of row p off] row
    by (simp add: dropWhile_eq_drop drop_map[symmetric])
  have d2: "distinct (map the (concat (map (dropWhile P) rest)))"
    using Cons.IH[of "Suc off"] rest by blast
  have d3: "the x \<noteq> the y"
    if "x \<in> set (dropWhile P row)" "y \<in> set (concat (map (dropWhile P) rest))" for x y
  proof -
    from that(1) obtain k where k: "k < length row" "row ! k = x"
      by (auto simp: in_dropWhile_nth)
    from that(2) obtain r j where j: "r < length rest" "j < length (rest ! r)" "rest ! r ! j = y"
      unfolding in_tails_nth by blast
    from row[OF k(1)] k(2) obtain c where c: "x = Some c" "p c = Some (off, k)" by auto
    from rest[OF j(1,2)] j(3) obtain d where d: "y = Some d" "p d = Some (Suc off + r, j)" by auto
    from c d show ?thesis by auto
  qed
  from d1 d2 d3 show ?case by auto
qed

text \<open>
  What \<open>clearUnfinished\<close> returns when nothing throws: the cells cut off the rows, in
  the order in which they reach the stock, and the state after the reset.
\<close>

definition tails :: "card list \<Rightarrow> game \<Rightarrow> card option list" where
  "tails f g = concat (map (dropWhile (has f)) (rows g))"

definition cleared :: "card list \<Rightarrow> game \<Rightarrow> game" where
  "cleared f g =
     g\<lparr> stock := stock g @ map the (tails f g),
        rows := map (takeWhile (has f)) (rows g),
        pos := (\<lambda>c. if c \<in> set (stock g) \<or> Some c \<in> set (tails f g) then None else pos g c) \<rparr>"

lemma tails_cell:
  assumes "wellformed g" and "x \<in> set (tails f g)"
  shows "\<exists>c r k. x = Some c \<and> c \<in> set CARDS \<and> pos g c = Some (r, k) \<and> r < 4
            \<and> length (takeWhile (has f) (rows g ! r)) \<le> k \<and> k < length (rows g ! r)"
proof -
  from assms(2) obtain r k where rk: "r < length (rows g)"
      "length (takeWhile (has f) (rows g ! r)) \<le> k" "k < length (rows g ! r)" "rows g ! r ! k = x"
    unfolding tails_def in_tails_nth by blast
  from rk(1) wf_rows[OF assms(1)] have r4: "r < 4" by simp
  from wf_cell[OF assms(1) r4 rk(3)] rk show ?thesis using r4 by auto
qed

lemma tails_iff:
  assumes "wellformed g" and "pos g c = Some (r, k)"
  shows "Some c \<in> set (tails f g) \<longleftrightarrow> length (takeWhile (has f) (rows g ! r)) \<le> k"
proof
  assume "Some c \<in> set (tails f g)"
  from tails_cell[OF assms(1) this] assms(2) show "length (takeWhile (has f) (rows g ! r)) \<le> k"
    by auto
next
  assume le: "length (takeWhile (has f) (rows g ! r)) \<le> k"
  from wf_pos[OF assms] have "r < 4" "k < length (rows g ! r)" "rows g ! r ! k = Some c"
    by simp_all
  with le wf_rows[OF assms(1)] show "Some c \<in> set (tails f g)"
    unfolding tails_def in_tails_nth by auto
qed

lemma clearUnfinished_cleared:
  assumes "wellformed g" and "getFinalizedCards g = Inr f"
  shows "clearUnfinished g = Inr (cleared f g)"
proof -
  have "None \<notin> set (tails f g)"
    using tails_cell[OF assms(1), of None f] by auto
  then have "None \<notin> set (map Some (stock g) @ tails f g)" by auto
  moreover have "map the (map Some (stock g) @ tails f g) = stock g @ map the (tails f g)"
    by (simp add: comp_def)
  moreover have "(\<lambda>c. if Some c \<in> set (map Some (stock g) @ tails f g) then None else pos g c)
      = (\<lambda>c. if c \<in> set (stock g) \<or> Some c \<in> set (tails f g) then None else pos g c)"
    by (auto simp: fun_eq_iff)
  ultimately show ?thesis
    using assms(2)
    by (simp add: clearUnfinished_def clearLoop_eq resetLoop_eq cleared_def tails_def
        del: set_append map_append)
qed

lemma cleared_wellformed:
  assumes wf: "wellformed g"
  shows "wellformed (cleared f g)"
proof -
  let ?g = "cleared f g"
  let ?P = "has f"
  have rows': "rows ?g = map (takeWhile ?P) (rows g)" by (simp add: cleared_def)
  have stock': "stock ?g = stock g @ map the (tails f g)" by (simp add: cleared_def)
  have pos': "pos ?g c = (if c \<in> set (stock g) \<or> Some c \<in> set (tails f g) then None else pos g c)"
    for c by (simp add: cleared_def)
  note r4 = wf_rows[OF wf]
  have row': "rows ?g ! r = takeWhile ?P (rows g ! r)" if "r < 4" for r
    using that r4 by (simp add: rows')
  have c1: "length (rows ?g) = 4" by (simp add: rows' r4)
  have c2: "length (rows ?g ! r) \<le> 13" if "r < 4" for r
    using wf_len[OF wf that] length_takeWhile_le[of ?P "rows g ! r"] row'[OF that] by simp
  have c3: "\<exists>c. rows ?g ! r ! k = Some c \<and> c \<in> set CARDS \<and> pos ?g c = Some (r, k)"
    if "r < 4" "k < length (rows ?g ! r)" for r k
  proof -
    from that have k: "k < length (takeWhile ?P (rows g ! r))" by (simp add: row')
    then have k': "k < length (rows g ! r)"
      using length_takeWhile_le[of ?P "rows g ! r"] by simp
    from wf_cell[OF wf that(1) k'] obtain c where
      c: "rows g ! r ! k = Some c" "c \<in> set CARDS" "pos g c = Some (r, k)" by blast
    have "rows ?g ! r ! k = Some c" using c(1) k by (simp add: row'[OF that(1)] takeWhile_nth)
    moreover have "c \<notin> set (stock g)" using wf_stock[OF wf] c(3) by auto
    moreover have "Some c \<notin> set (tails f g)" using tails_iff[OF wf c(3)] k by simp
    ultimately show ?thesis using c by (auto simp: pos')
  qed
  have c4: "r < 4 \<and> k < length (rows ?g ! r) \<and> rows ?g ! r ! k = Some c"
    if "pos ?g c = Some (r, k)" for c r k
  proof -
    from that have p: "pos g c = Some (r, k)" and nt: "Some c \<notin> set (tails f g)"
      by (auto simp: pos' split: if_splits)
    from wf_pos[OF wf p] have a: "r < 4" "k < length (rows g ! r)" "rows g ! r ! k = Some c"
      by simp_all
    from nt tails_iff[OF wf p] have k: "k < length (takeWhile ?P (rows g ! r))" by simp
    with a show ?thesis by (simp add: row' takeWhile_nth)
  qed
  have c5: "pos ?g c = None \<and> c \<in> set CARDS" if "c \<in> set (stock ?g)" for c
  proof (cases "c \<in> set (stock g)")
    case True
    with wf_stock[OF wf] show ?thesis by (simp add: pos')
  next
    case False
    with that obtain x where x: "x \<in> set (tails f g)" "c = the x" by (auto simp: stock')
    from tails_cell[OF wf x(1)] x show ?thesis by (auto simp: pos')
  qed
  have c6: "distinct (stock ?g)"
  proof -
    have "distinct (map the (tails f g))"
      unfolding tails_def
    proof (rule distinct_tails[where p = "pos g" and off = 0])
      fix r k
      assume "r < length (rows g)" "k < length (rows g ! r)"
      with wf_cell[OF wf, of r k] r4
      show "\<exists>c. rows g ! r ! k = Some c \<and> pos g c = Some (0 + r, k)" by auto
    qed
    moreover have "c \<notin> set (map the (tails f g))" if "c \<in> set (stock g)" for c
    proof
      assume "c \<in> set (map the (tails f g))"
      then obtain x where x: "x \<in> set (tails f g)" "c = the x" by auto
      from tails_cell[OF wf x(1)] x(2) wf_stock[OF wf that] show False by auto
    qed
    ultimately show ?thesis using wf_distinct[OF wf] by (auto simp: stock')
  qed
  have c7: "length (stock ?g) + sum_list (map length (rows ?g)) = 52"
    using sum_length_take_drop[of ?P "rows g"] wf_count[OF wf]
    by (simp add: stock' rows' tails_def)
  from c1 c2 c3 c4 c5 c6 c7 show ?thesis
    unfolding wellformed_def by (simp only: c1) blast
qed

lemma clearUnfinished_wellformed:
  assumes "wellformed g" and "clearUnfinished g = Inr g'"
  shows "wellformed g'"
proof -
  from assms(2) obtain f where f: "getFinalizedCards g = Inr f"
    by (auto simp: clearUnfinished_def split: sum.splits)
  from clearUnfinished_cleared[OF assms(1) f] assms(2) cleared_wellformed[OF assms(1)]
  show ?thesis by simp
qed

lemma wellformedI:
  assumes "length (rows g) = 4"
    and "\<And>r. r < 4 \<Longrightarrow> length (rows g ! r) \<le> 13"
    and "\<And>r k. r < 4 \<Longrightarrow> k < length (rows g ! r) \<Longrightarrow>
           \<exists>c. rows g ! r ! k = Some c \<and> c \<in> set CARDS \<and> pos g c = Some (r, k)"
    and "\<And>c r k. pos g c = Some (r, k) \<Longrightarrow>
           r < 4 \<and> k < length (rows g ! r) \<and> rows g ! r ! k = Some c"
    and "\<And>c. c \<in> set (stock g) \<Longrightarrow> pos g c = None \<and> c \<in> set CARDS"
    and "distinct (stock g)"
    and "length (stock g) + sum_list (map length (rows g)) = 52"
  shows "wellformed g"
  unfolding wellformed_def
proof (intro conjI allI impI ballI)
  show "length (rows g) = 4" by fact
  show "distinct (stock g)" by fact
  show "length (stock g) + sum_list (map length (rows g)) = 52" by fact
  show "length (rows g ! r) \<le> 13" if "r < length (rows g)" for r
    using that assms(1,2) by simp
  show "\<exists>c. rows g ! r ! k = Some c \<and> c \<in> set CARDS \<and> pos g c = Some (r, k)"
    if "r < length (rows g)" "k < length (rows g ! r)" for r k
    using that assms(1,3) by simp
  show "r < length (rows g)" "k < length (rows g ! r)" "rows g ! r ! k = Some c"
    if "pos g c = Some (r, k)" for c r k
    using assms(4)[OF that] assms(1) by simp_all
  show "pos g c = None" "c \<in> set CARDS" if "c \<in> set (stock g)" for c
    using assms(5)[OF that] by simp_all
qed

lemma swap_unplaced: "pos g c = None \<Longrightarrow> swap g c d = Inl TypeError"
  by (auto simp: swap_def setCell_def Let_def split: sum.splits option.splits)

lemma swap_placed:
  assumes wf: "wellformed g"
    and pc: "pos g c = Some (r1, k1)" and pd: "pos g d = Some (r2, k2)" and ne: "c \<noteq> d"
  shows "\<exists>g'. swap g c d = Inr g' \<and> wellformed g' \<and> stock g' = stock g \<and> deals g' = deals g
           \<and> pos g' = (pos g)(c := pos g d, d := pos g c)
           \<and> map length (rows g') = map length (rows g)"
proof -
  note r4 = wf_rows[OF wf]
  from wf_pos[OF wf pc] have c: "r1 < 4" "k1 < length (rows g ! r1)" "rows g ! r1 ! k1 = Some c"
    by simp_all
  from wf_pos[OF wf pd] have d: "r2 < 4" "k2 < length (rows g ! r2)" "rows g ! r2 ! k2 = Some d"
    by simp_all
  have nepos: "(r1, k1) \<noteq> (r2, k2)" using c(3) d(3) ne by auto
  define R1 where "R1 = (rows g)[r2 := (rows g ! r2)[k2 := Some c]]"
  define R2 where "R2 = R1[r1 := (R1 ! r1)[k1 := Some d]]"
  define p where "p = (pos g)(c := pos g d, d := pos g c)"
  define g' where "g' = g\<lparr> rows := R2, pos := p \<rparr>"
  have pcd: "p c = Some (r2, k2)" "p d = Some (r1, k1)" "\<And>e. e \<noteq> c \<Longrightarrow> e \<noteq> d \<Longrightarrow> p e = pos g e"
    using ne pc pd by (auto simp: p_def)
  have lenR1: "length R1 = 4" "\<And>r. r < 4 \<Longrightarrow> length (R1 ! r) = length (rows g ! r)"
    using r4 d(1) by (auto simp: R1_def nth_list_update)
  have lenR2: "length R2 = 4" and lenrow: "\<And>r. r < 4 \<Longrightarrow> length (R2 ! r) = length (rows g ! r)"
    using lenR1 c(1) by (auto simp: R2_def nth_list_update)
  have cellR2: "R2 ! r ! k =
      (if (r, k) = (r1, k1) then Some d else if (r, k) = (r2, k2) then Some c else rows g ! r ! k)"
    if "r < 4" "k < length (rows g ! r)" for r k
    using that r4 c d by (auto simp: R2_def R1_def nth_list_update)
  have sw: "swap g c d = Inr g'"
    using c d r4 lenR1 pc pd ne
    by (simp add: swap_def setCell_def writeCell_def Let_def g'_def R2_def R1_def p_def)
  have [simp]: "rows g' = R2" "pos g' = p" "stock g' = stock g" "deals g' = deals g"
    by (simp_all add: g'_def)
  have c3: "\<exists>e. rows g' ! r ! k = Some e \<and> e \<in> set CARDS \<and> pos g' e = Some (r, k)"
    if "r < 4" "k < length (rows g' ! r)" for r k
  proof -
    from that have k: "k < length (rows g ! r)" by (simp add: lenrow)
    consider "(r, k) = (r1, k1)" | "(r, k) = (r2, k2)" | "(r, k) \<noteq> (r1, k1)" "(r, k) \<noteq> (r2, k2)"
      by blast
    then show ?thesis
    proof cases
      case 1
      then show ?thesis using cellR2[OF that(1) k] pcd wf_pos_CARDS[OF wf pd] by auto
    next
      case 2
      then show ?thesis using cellR2[OF that(1) k] pcd wf_pos_CARDS[OF wf pc] nepos by auto
    next
      case 3
      from wf_cell[OF wf that(1) k] obtain e where
        e: "rows g ! r ! k = Some e" "e \<in> set CARDS" "pos g e = Some (r, k)" by blast
      with 3 pc pd have "e \<noteq> c" "e \<noteq> d" by auto
      with e 3 show ?thesis using cellR2[OF that(1) k] pcd(3) by auto
    qed
  qed
  have c4: "r < 4 \<and> k < length (rows g' ! r) \<and> rows g' ! r ! k = Some e"
    if "pos g' e = Some (r, k)" for e r k
  proof -
    consider "e = c" | "e = d" | "e \<noteq> c" "e \<noteq> d" by blast
    then show ?thesis
    proof cases
      case 1
      with that pcd have "(r, k) = (r2, k2)" by simp
      with 1 d nepos show ?thesis using cellR2[of r2 k2] lenrow by auto
    next
      case 2
      with that pcd have "(r, k) = (r1, k1)" by simp
      with 2 c show ?thesis using cellR2[of r1 k1] lenrow by auto
    next
      case 3
      with that pcd have pe: "pos g e = Some (r, k)" by simp
      from wf_pos[OF wf pe] have a: "r < 4" "k < length (rows g ! r)" "rows g ! r ! k = Some e"
        by simp_all
      from a(3) c(3) d(3) 3 have "(r, k) \<noteq> (r1, k1)" "(r, k) \<noteq> (r2, k2)" by auto
      with a show ?thesis using cellR2[OF a(1,2)] lenrow by auto
    qed
  qed
  have c5: "pos g' e = None \<and> e \<in> set CARDS" if "e \<in> set (stock g')" for e
  proof -
    from that wf_stock[OF wf, of e] have e: "pos g e = None" "e \<in> set CARDS" by simp_all
    with pc pd have "e \<noteq> c" "e \<noteq> d" by auto
    with e pcd(3)[of e] show ?thesis by simp
  qed
  have lens: "map length R2 = map length (rows g)"
    using lenR2 r4 lenrow by (auto intro!: nth_equalityI)
  have c2: "length (rows g' ! r) \<le> 13" if "r < 4" for r
    using wf_len[OF wf that] lenrow[OF that] by simp
  have "wellformed g'"
  proof (rule wellformedI)
    show "length (rows g') = 4" by (simp add: lenR2)
    show "distinct (stock g')" using wf_distinct[OF wf] by simp
    show "length (stock g') + sum_list (map length (rows g')) = 52"
      using wf_count[OF wf] lens by simp
  qed (use c2 c3 c4 c5 in blast)+
  with sw lens show ?thesis by (auto simp: p_def)
qed

lemma getBlanks_eq:
  "getBlanks = [Card ''B1'' ''B'', Card ''B2'' ''B'', Card ''B3'' ''B'', Card ''B4'' ''B'']"
  by code_simp

lemma getBlanks_iff: "d \<in> set getBlanks \<longleftrightarrow> d \<in> set CARDS \<and> isBlank d"
  by (auto simp: getBlanks_def)

lemma blank_links: "d \<in> set getBlanks \<Longrightarrow> prevRank d = None \<and> nextRank d = None \<and> rank d \<noteq> ''2''"
  unfolding getBlanks_eq by (auto, code_simp+)

lemma swap_InrD: "swap g c d = Inr g' \<Longrightarrow> pos g c \<noteq> None"
  using swap_unplaced[of g c d] by (cases "pos g c") simp_all

lemma move_cases:
  assumes wf: "wellformed g" and mv: "move c g = Inr g'"
  shows "g' = g \<or>
         (\<exists>d. d \<in> set getBlanks \<and> d \<noteq> c \<and> pos g c \<noteq> None \<and> pos g d \<noteq> None
              \<and> swap g c d = Inr g')"
proof (cases "rank c = ''2''")
  case True
  define bfc where "bfc = sort_key (rowNum g) (filter (\<lambda>b. column g b = Some 0) getBlanks)"
  define after where "after = filter (\<lambda>b. rowNum g b > rowNum g c) bfc"
  have inb: "d \<in> set getBlanks \<and> d \<noteq> c \<and> pos g d \<noteq> None" if "d \<in> set bfc" for d
  proof -
    from that have "d \<in> set getBlanks" "column g d = Some 0" by (auto simp: bfc_def)
    with blank_links[of d] True show ?thesis by (auto simp: column_def)
  qed
  show ?thesis
  proof (cases "bfc = []")
    case True
    with mv \<open>rank c = ''2''\<close> show ?thesis by (simp add: move_def bfc_def Let_def)
  next
    case False
    then have h1: "hd bfc \<in> set bfc" by simp
    have h2: "hd after \<in> set bfc" if "after \<noteq> []"
      using hd_in_set[OF that] by (auto simp: after_def)
    from mv \<open>rank c = ''2''\<close> False
    have "swap g c (hd bfc) = Inr g' \<or> (after \<noteq> [] \<and> swap g c (hd after) = Inr g')"
      by (auto simp: move_def Let_def bfc_def[symmetric] after_def[symmetric] split: if_splits)
    with h1 h2 obtain d where d: "d \<in> set bfc" "swap g c d = Inr g'"
      by blast
    from d(2) have "pos g c \<noteq> None" by (rule swap_InrD)
    with inb[OF d(1)] d(2) show ?thesis by blast
  qed
next
  case False
  show ?thesis
  proof (cases "g' = g")
    case True
    then show ?thesis by simp
  next
    case ne: False
    from mv False ne obtain nl r k d where
      nl: "prevRank c = Some nl" "pos g nl = Some (r, k)" "r < length (rows g)"
        "int k < int (length (rows g ! r)) - 1" "elem (rows g ! r) (k + 1) = Some d"
        "isBlank d" "swap g c d = Inr g'"
      by (auto simp: move_def split: option.splits if_splits)
    from nl(4) have k1: "k + 1 < length (rows g ! r)" by simp
    from nl(3) wf_rows[OF wf] have r4: "r < 4" by simp
    from wf_cell[OF wf r4 k1] nl(5) k1 have d: "d \<in> set CARDS" "pos g d = Some (r, k + 1)"
      by (auto simp: elem_def)
    with nl(6) have db: "d \<in> set getBlanks" by (simp add: getBlanks_iff)
    with blank_links[of d] nl(1) have "d \<noteq> c" by auto
    moreover from nl(7) have "pos g c \<noteq> None" by (rule swap_InrD)
    ultimately show ?thesis using db d(2) nl(7) by auto
  qed
qed

lemma move_wellformed:
  assumes wf: "wellformed g" and mv: "move c g = Inr g'"
  shows "wellformed g'"
proof -
  from move_cases[OF assms] show ?thesis
  proof
    assume "g' = g"
    with wf show ?thesis by simp
  next
    assume "\<exists>d. d \<in> set getBlanks \<and> d \<noteq> c \<and> pos g c \<noteq> None \<and> pos g d \<noteq> None
              \<and> swap g c d = Inr g'"
    then obtain d r1 k1 r2 k2 where d: "d \<noteq> c" "pos g c = Some (r1, k1)"
        "pos g d = Some (r2, k2)" "swap g c d = Inr g'"
      by auto
    from swap_placed[OF wf d(2,3)] d(1,4) show ?thesis by auto
  qed
qed

lemma shuffleLoop_mset: "i < length xs \<Longrightarrow> mset (shuffleLoop rnd i xs) = mset xs"
proof (induction i arbitrary: xs)
  case 0
  then show ?case by simp
next
  case (Suc i)
  let ?j = "rnd (Suc i) mod (Suc i + 1)"
  have j: "?j < length xs" using Suc.prems by (simp add: less_le_trans[OF mod_less_divisor])
  have "mset (xs[Suc i := xs ! ?j, ?j := xs ! Suc i]) = mset xs"
    using Suc.prems j by (simp add: mset_swap)
  moreover have "i < length (xs[Suc i := xs ! ?j, ?j := xs ! Suc i])" using Suc.prems by simp
  ultimately show ?case using Suc.IH by (simp add: Let_def)
qed

lemma shuffled_mset: "mset (shuffled rnd xs) = mset xs"
  by (cases xs) (simp_all add: shuffled_def shuffleLoop_mset)

lemma wellformed_stock_perm:
  assumes "wellformed g" and "mset st = mset (stock g)"
  shows "wellformed (g\<lparr> stock := st \<rparr>)"
proof -
  have a: "set st = set (stock g)" using assms(2) by (rule mset_eq_setD)
  have b: "length st = length (stock g)" using assms(2) by (rule mset_eq_length)
  have c: "distinct st = distinct (stock g)" using assms(2) by (rule mset_eq_imp_distinct_iff)
  let ?g = "g\<lparr> stock := st \<rparr>"
  note wf = assms(1)
  show ?thesis
  proof (rule wellformedI)
    show "length (rows ?g) = 4" using wf_rows[OF wf] by simp
    show "length (rows ?g ! r) \<le> 13" if "r < 4" for r
      using wf_len[OF wf that] by simp
    show "\<exists>c. rows ?g ! r ! k = Some c \<and> c \<in> set CARDS \<and> pos ?g c = Some (r, k)"
      if "r < 4" "k < length (rows ?g ! r)" for r k
      using wf_cell[OF wf, of r k] that by simp
    show "r < 4 \<and> k < length (rows ?g ! r) \<and> rows ?g ! r ! k = Some c"
      if "pos ?g c = Some (r, k)" for c r k
      using wf_pos[OF wf, of c r k] that by simp
    show "pos ?g c = None \<and> c \<in> set CARDS" if "c \<in> set (stock ?g)" for c
      using wf_stock[OF wf, of c] that a by simp
    show "distinct (stock ?g)" using c wf_distinct[OF wf] by simp
    show "length (stock ?g) + sum_list (map length (rows ?g)) = 52"
      using b wf_count[OF wf] by simp
  qed
qed

lemma sum_length_bound:
  "(\<forall>row\<in>set rs. length row \<le> 13) \<Longrightarrow> sum_list (map length rs) \<le> 13 * length rs"
  by (induction rs) auto

lemma sum_length_strict:
  "(\<forall>row\<in>set rs. length row \<le> 13) \<Longrightarrow> row \<in> set rs \<Longrightarrow> length row < 13
     \<Longrightarrow> sum_list (map length rs) < 13 * length rs"
proof (induction rs)
  case Nil
  then show ?case by simp
next
  case (Cons a rs)
  then show ?case using sum_length_bound[of rs] by auto
qed

lemma sum_length_full:
  "(\<forall>row\<in>set rs. length row = 13) \<Longrightarrow> sum_list (map length rs) = 13 * length rs"
  by (induction rs) auto

lemma wf_rows_le: "wellformed g \<Longrightarrow> \<forall>row\<in>set (rows g). length row \<le> 13"
  by (auto simp: wellformed_def in_set_conv_nth)

lemma short_row_stock:
  assumes "wellformed g" and "row \<in> set (rows g)" and "length row < 13"
  shows "stock g \<noteq> []"
proof
  assume "stock g = []"
  with wf_count[OF assms(1)] have "sum_list (map length (rows g)) = 52" by simp
  moreover from sum_length_strict[OF wf_rows_le[OF assms(1)] assms(2,3)] wf_rows[OF assms(1)]
  have "sum_list (map length (rows g)) < 52" by simp
  ultimately show False by simp
qed

lemma nth_mid_eq: "(pre @ x # rest) ! length pre = x"
  by simp

lemma nth_mid_neq: "r \<noteq> length pre \<Longrightarrow> (pre @ x # rest) ! r = (pre @ y # rest) ! r"
  by (simp add: nth_append nth_Cons')

lemma deal_step:
  assumes wf: "wellformed \<lparr> stock = c # st, rows = pre @ row # rest, deals = n, pos = p \<rparr>"
    and short: "length row < 13"
  shows "wellformed \<lparr> stock = st, rows = pre @ (row @ [Some c]) # rest, deals = n,
                       pos = p(c := Some (length pre, length row)) \<rparr>"
proof -
  define g where "g = \<lparr> stock = c # st, rows = pre @ row # rest, deals = n, pos = p \<rparr>"
  define g' where "g' = \<lparr> stock = st, rows = pre @ (row @ [Some c]) # rest, deals = n,
                       pos = p(c := Some (length pre, length row)) \<rparr>"
  let ?i = "length pre"
  have wfg: "wellformed g" using wf by (simp add: g_def)
  have g: "stock g = c # st" "pos g = p" "rows g ! ?i = row"
    by (simp_all add: g_def)
  have g': "stock g' = st" "pos g' = p(c := Some (?i, length row))"
    "rows g' ! ?i = row @ [Some c]" "length (rows g') = length (rows g)"
    "sum_list (map length (rows g')) = Suc (sum_list (map length (rows g)))"
    by (simp_all add: g_def g'_def)
  have other: "rows g' ! r = rows g ! r" if "r \<noteq> ?i" for r
    using nth_mid_neq[OF that] by (simp add: g_def g'_def)
  from wf_rows[OF wfg] have i4: "?i < 4" by (simp add: g_def)
  from wf_stock[OF wfg, of c] have pc: "p c = None" "c \<in> set CARDS" by (simp_all add: g)
  from wf_distinct[OF wfg] have cst: "c \<notin> set st" "distinct st" by (simp_all add: g)
  have "wellformed g'"
  proof (rule wellformedI)
    show "length (rows g') = 4" using wf_rows[OF wfg] g'(4) by simp
  next
    fix r :: nat assume r: "r < 4"
    show "length (rows g' ! r) \<le> 13"
    proof (cases "r = ?i")
      case True
      then show ?thesis using short g'(3) by simp
    next
      case False
      then show ?thesis using wf_len[OF wfg r] other by simp
    qed
  next
    fix r k :: nat
    assume r: "r < 4" and k: "k < length (rows g' ! r)"
    show "\<exists>e. rows g' ! r ! k = Some e \<and> e \<in> set CARDS \<and> pos g' e = Some (r, k)"
    proof (cases "r = ?i \<and> k = length row")
      case True
      then show ?thesis using pc g'(2,3) by simp
    next
      case False
      have k': "k < length (rows g ! r)"
      proof (cases "r = ?i")
        case True
        with False k g'(3) g(3) show ?thesis by simp
      next
        case False
        with k other show ?thesis by simp
      qed
      from wf_cell[OF wfg r k'] obtain e where
        e: "rows g ! r ! k = Some e" "e \<in> set CARDS" "pos g e = Some (r, k)" by blast
      with pc g(2) have "e \<noteq> c" by auto
      moreover have "rows g' ! r ! k = rows g ! r ! k"
      proof (cases "r = ?i")
        case True
        with k' g(3) g'(3) show ?thesis by (simp add: nth_append)
      next
        case False
        with other show ?thesis by simp
      qed
      ultimately show ?thesis using e g(2) g'(2) by simp
    qed
  next
    fix e r k
    assume pe: "pos g' e = Some (r, k)"
    show "r < 4 \<and> k < length (rows g' ! r) \<and> rows g' ! r ! k = Some e"
    proof (cases "e = c")
      case True
      with pe g'(2) have "r = ?i" "k = length row" by simp_all
      with True i4 g'(3) show ?thesis by simp
    next
      case False
      with pe g'(2) g(2) have "pos g e = Some (r, k)" by simp
      from wf_pos[OF wfg this] have a: "r < 4" "k < length (rows g ! r)" "rows g ! r ! k = Some e"
        by simp_all
      show ?thesis
      proof (cases "r = ?i")
        case True
        with a g(3) g'(3) show ?thesis by (simp add: nth_append)
      next
        case False
        with a other show ?thesis by simp
      qed
    qed
  next
    fix e assume "e \<in> set (stock g')"
    then have e: "e \<in> set st" by (simp add: g')
    with cst have "e \<noteq> c" by auto
    with wf_stock[OF wfg, of e] e show "pos g' e = None \<and> e \<in> set CARDS"
      by (simp add: g g')
  next
    show "distinct (stock g')" using cst by (simp add: g')
  next
    show "length (stock g') + sum_list (map length (rows g')) = 52"
      using wf_count[OF wfg] by (simp add: g g')
  qed
  then show ?thesis by (simp add: g'_def)
qed

lemma dealRow_wellformed:
  "wellformed \<lparr> stock = st, rows = pre @ row # rest, deals = n, pos = p \<rparr> \<Longrightarrow> i = length pre \<Longrightarrow>
   \<exists>row' st' p'. dealRow i row st p = Inr (row', st', p') \<and> length row' = 13
      \<and> wellformed \<lparr> stock = st', rows = pre @ row' # rest, deals = n, pos = p' \<rparr>"
proof (induction i row st p rule: dealRow.induct)
  case (1 i row st p)
  let ?g = "\<lparr> stock = st, rows = pre @ row # rest, deals = n, pos = p \<rparr>"
  note wf = "1.prems"(1)
  have le: "length row \<le> 13" using wf_rows_le[OF wf] by simp
  show ?case
  proof (cases "length row < 13")
    case True
    from short_row_stock[OF wf _ True] obtain c st' where st: "st = c # st'"
      by (cases st) auto
    from deal_step[OF wf[unfolded st] True]
    have wf': "wellformed \<lparr> stock = st', rows = pre @ (row @ [Some c]) # rest, deals = n,
                            pos = p(c := Some (length pre, length row)) \<rparr>" .
    from wf' have wf'': "wellformed \<lparr> stock = st', rows = pre @ (row @ [Some c]) # rest, deals = n,
                            pos = p(c := Some (i, length row)) \<rparr>"
      by (simp only: "1.prems"(2))
    from "1.IH"[OF True st wf'' "1.prems"(2)]
    obtain row' st'' p' where
      r: "dealRow i (row @ [Some c]) st' (p(c := Some (i, length row))) = Inr (row', st'', p')"
        "length row' = 13"
        "wellformed \<lparr> stock = st'', rows = pre @ row' # rest, deals = n, pos = p' \<rparr>"
      by blast
    have "dealRow i row st p = Inr (row', st'', p')"
      by (subst dealRow.simps) (simp add: True st r(1))
    with r show ?thesis by blast
  next
    case False
    with le have "length row = 13" by simp
    moreover have "dealRow i row st p = Inr (row, st, p)"
      by (subst dealRow.simps) (simp add: False)
    ultimately show ?thesis using wf by blast
  qed
qed

lemma dealLoop_wellformed:
  "wellformed \<lparr> stock = st, rows = pre @ rs, deals = n, pos = p \<rparr> \<Longrightarrow>
   \<exists>rs' st' p'. dealLoop (length pre) rs st p = Inr (rs', st', p')
      \<and> (\<forall>row\<in>set rs'. length row = 13) \<and> length rs' = length rs
      \<and> wellformed \<lparr> stock = st', rows = pre @ rs', deals = n, pos = p' \<rparr>"
proof (induction rs arbitrary: pre st p)
  case Nil
  then show ?case by simp
next
  case (Cons row rest)
  from dealRow_wellformed[OF Cons.prems refl]
  obtain row' st' p' where
    r: "dealRow (length pre) row st p = Inr (row', st', p')" "length row' = 13"
      "wellformed \<lparr> stock = st', rows = pre @ row' # rest, deals = n, pos = p' \<rparr>"
    by blast
  from r(3) have "wellformed \<lparr> stock = st', rows = (pre @ [row']) @ rest, deals = n, pos = p' \<rparr>"
    by simp
  from Cons.IH[OF this]
  obtain rs' st'' p'' where
    l: "dealLoop (Suc (length pre)) rest st' p' = Inr (rs', st'', p'')"
      "\<forall>row\<in>set rs'. length row = 13" "length rs' = length rest"
      "wellformed \<lparr> stock = st'', rows = pre @ row' # rs', deals = n, pos = p'' \<rparr>"
    by auto
  have "dealLoop (length pre) (row # rest) st p = Inr (row' # rs', st'', p'')"
    by (simp add: r(1) l(1))
  with r(2) l show ?case by auto
qed

lemma wellformed_deals: "wellformed (g\<lparr> deals := n \<rparr>) = wellformed g"
  by (simp add: wellformed_def)

lemma deal_blocked:
  "getMovableCards g = Inr m \<Longrightarrow> m \<noteq> [] \<Longrightarrow> deal rnd g = Inr g"
  by (simp add: deal_def)

lemma deal_dealt:
  assumes wf: "wellformed self" and mv: "getMovableCards g = Inr []"
    and cl: "clearUnfinished g = Inr self"
  shows "\<exists>g'. deal rnd g = Inr g' \<and> wellformed g' \<and> stock g' = [] \<and> length (rows g') = 4
           \<and> (\<forall>row\<in>set (rows g'). length row = 13) \<and> deals g' = deals self + 1"
proof -
  let ?st = "shuffled rnd (stock self)"
  have "wellformed (self\<lparr> stock := ?st \<rparr>)"
    using wf shuffled_mset by (rule wellformed_stock_perm)
  then have w: "wellformed (self\<lparr> stock := ?st, deals := deals self + 1 \<rparr>)"
    by (simp only: wellformed_deals)
  have eq: "self\<lparr> stock := ?st, deals := deals self + 1 \<rparr>
      = \<lparr> stock = ?st, rows = [] @ rows self, deals = deals self + 1, pos = pos self \<rparr>"
    by (cases self) simp
  have
    "wellformed \<lparr> stock = ?st, rows = [] @ rows self, deals = deals self + 1, pos = pos self \<rparr>"
    unfolding eq[symmetric] by (rule w)
  from dealLoop_wellformed[OF this]
  obtain rs st p where
    l: "dealLoop 0 (rows self) ?st (pos self) = Inr (rs, st, p)"
      "\<forall>row\<in>set rs. length row = 13" "length rs = length (rows self)"
      "wellformed \<lparr> stock = st, rows = rs, deals = deals self + 1, pos = p \<rparr>"
    by auto
  let ?g' = "\<lparr> stock = st, rows = rs, deals = deals self + 1, pos = p \<rparr>"
  have d: "deal rnd g = Inr ?g'" by (simp add: deal_def mv cl l(1))
  have len: "length rs = 4" using wf_rows[OF l(4)] by simp
  from wf_count[OF l(4)] sum_length_full[OF l(2)] len have "st = []" by simp
  with d l len show ?thesis by simp
qed

lemma deal_wellformed:
  assumes wf: "wellformed g" and d: "deal rnd g = Inr g'"
  shows "wellformed g'"
proof -
  from d obtain m where m: "getMovableCards g = Inr m"
    by (auto simp: deal_def split: sum.splits)
  show ?thesis
  proof (cases "m = []")
    case False
    from deal_blocked[OF m False, of rnd] d wf show ?thesis by simp
  next
    case True
    with d m obtain self where cl: "clearUnfinished g = Inr self"
      by (auto simp: deal_def split: sum.splits)
    from clearUnfinished_wellformed[OF wf cl] have "wellformed self" .
    from deal_dealt[OF this m[unfolded True] cl, of rnd] d show ?thesis by auto
  qed
qed

lemma reachable_wellformed: "reachable g \<Longrightarrow> wellformed g"
proof (induction rule: reachable.induct)
  case r_initial
  show ?case by (rule wellformed_initial)
next
  case (r_deal g rnd g')
  then show ?case using deal_wellformed by blast
next
  case (r_move g c g')
  then show ?case using move_wellformed by blast
next
  case (r_clear g g')
  then show ?case using clearUnfinished_wellformed by blast
qed

section \<open>An example board\<close>

text \<open>
  The shuffle whose only exchange is that of the cards at indices 48 and 13 and the board
  it deals from the initial state: the blank \<open>B1\<close> heads the second row.
\<close>

definition example_choices :: "nat \<Rightarrow> nat" where
  "example_choices i = (if i = 48 then 13 else i)"

definition example_board :: game where
  "example_board = (case deal example_choices initial of Inr g \<Rightarrow> g | Inl e \<Rightarrow> initial)"

lemma example_deal: "deal example_choices initial = Inr example_board"
proof -
  have "\<not> isl (deal example_choices initial)" by code_simp
  then show ?thesis by (cases "deal example_choices initial") (simp_all add: example_board_def)
qed

lemma example_reachable: "reachable example_board"
  using r_initial example_deal by (rule r_deal)

lemma example_rows:
  "rows example_board =
     [map Some [Card ''2'' ''C'', Card ''3'' ''C'', Card ''4'' ''C'', Card ''5'' ''C'',
        Card ''6'' ''C'', Card ''7'' ''C'', Card ''8'' ''C'', Card ''9'' ''C'', Card ''10'' ''C'',
        Card ''J'' ''C'', Card ''Q'' ''C'', Card ''K'' ''C'', Card ''2'' ''D''],
      map Some [Card ''B1'' ''B'', Card ''4'' ''D'', Card ''5'' ''D'', Card ''6'' ''D'',
        Card ''7'' ''D'', Card ''8'' ''D'', Card ''9'' ''D'', Card ''10'' ''D'', Card ''J'' ''D'',
        Card ''Q'' ''D'', Card ''K'' ''D'', Card ''2'' ''H'', Card ''3'' ''H''],
      map Some [Card ''4'' ''H'', Card ''5'' ''H'', Card ''6'' ''H'', Card ''7'' ''H'',
        Card ''8'' ''H'', Card ''9'' ''H'', Card ''10'' ''H'', Card ''J'' ''H'', Card ''Q'' ''H'',
        Card ''K'' ''H'', Card ''2'' ''S'', Card ''3'' ''S'', Card ''4'' ''S''],
      map Some [Card ''5'' ''S'', Card ''6'' ''S'', Card ''7'' ''S'', Card ''8'' ''S'',
        Card ''9'' ''S'', Card ''10'' ''S'', Card ''J'' ''S'', Card ''Q'' ''S'', Card ''K'' ''S'',
        Card ''3'' ''D'', Card ''B2'' ''B'', Card ''B3'' ''B'', Card ''B4'' ''B'']]"
  by code_simp

lemma example_stock: "stock example_board = []"
  by code_simp

lemma example_pos:
  "pos example_board (Card ''2'' ''C'') = Some (0, 0)"
  "pos example_board (Card ''B1'' ''B'') = Some (1, 0)"
  "pos example_board (Card ''3'' ''C'') = Some (0, 1)"
  by code_simp+

lemma example_movable:
  "getMovableCards example_board =
     Inr (map Some [Card ''2'' ''C'', Card ''2'' ''D'', Card ''2'' ''H'', Card ''2'' ''S'',
            Card ''4'' ''D''])"
  by code_simp

section \<open>Card count, blocked deals and positions\<close>

text \<open>
  Claim C1. In every state reachable from the initial one by \<open>deal\<close>, \<open>move\<close> and
  \<open>clearUnfinished\<close>, there are four rows and the length of the stock plus the sum of
  the lengths of the rows is 52.
\<close>

theorem card_count_conservation:
  "reachable g \<Longrightarrow>
     length (rows g) = 4 \<and> length (stock g) + sum_list (map length (rows g)) = 52"
  using reachable_wellformed[of g] by (simp add: wf_rows wf_count)

theorem card_count_conservation_witness:
  "reachable example_board \<and> length (rows example_board) = 4 \<and> stock example_board = [] \<and>
   length (stock example_board) + sum_list (map length (rows example_board)) = 52"
  using card_count_conservation[OF example_reachable] example_reachable example_stock by simp

text \<open>
  Claim C2. In any state, when \<open>getMovableCards\<close> returns a set that is not empty,
  \<open>deal\<close> returns the state it was given: stock, rows, deal counter and the position
  of every card are unchanged.
\<close>

theorem deal_blocking:
  "getMovableCards g = Inr movable \<Longrightarrow> movable \<noteq> [] \<Longrightarrow> deal rnd g = Inr g"
  by (simp add: deal_def)

theorem deal_blocking_witness:
  "getMovableCards example_board =
     Inr (map Some [Card ''2'' ''C'', Card ''2'' ''D'', Card ''2'' ''H'', Card ''2'' ''S'',
            Card ''4'' ''D''])
   \<and> deal example_choices example_board = Inr example_board"
  using deal_blocking[OF example_movable, of example_choices] example_movable by simp

text \<open>
  Claim C5. In every reachable state, a card whose position is \<open>(r, k)\<close> is the card
  in cell \<open>k\<close> of row \<open>r\<close>, every cell of a row holds a card whose position is that
  cell, no two cards have the same position, and every card of the stock has no
  position.
\<close>

theorem position_grid_bijection:
  "reachable g \<Longrightarrow>
     (\<forall>c r k. pos g c = Some (r, k) \<longrightarrow>
        r < length (rows g) \<and> k < length (rows g ! r) \<and> rows g ! r ! k = Some c) \<and>
     (\<forall>r k. r < length (rows g) \<and> k < length (rows g ! r) \<longrightarrow>
        (\<exists>c. rows g ! r ! k = Some c \<and> pos g c = Some (r, k))) \<and>
     (\<forall>c d. pos g c \<noteq> None \<and> pos g c = pos g d \<longrightarrow> c = d) \<and>
     (\<forall>c\<in>set (stock g). pos g c = None)"
proof -
  assume "reachable g"
  then have wf: "wellformed g" by (rule reachable_wellformed)
  have a: "r < length (rows g) \<and> k < length (rows g ! r) \<and> rows g ! r ! k = Some c"
    if "pos g c = Some (r, k)" for c r k
    using wf_pos[OF wf that] wf_rows[OF wf] by simp
  have b: "c = d" if "pos g c \<noteq> None \<and> pos g c = pos g d" for c d
  proof -
    from that have n: "pos g c \<noteq> None" and e: "pos g c = pos g d" by blast+
    from n obtain r k where c: "pos g c = Some (r, k)" by (cases "pos g c") auto
    from c e have d: "pos g d = Some (r, k)" by simp
    from a[OF c] a[OF d] show ?thesis by simp
  qed
  have c: "\<exists>c. rows g ! r ! k = Some c \<and> pos g c = Some (r, k)"
    if "r < length (rows g) \<and> k < length (rows g ! r)" for r k
    using wf_cell[OF wf, of r k] that wf_rows[OF wf] by auto
  from a b c wf_stock[OF wf] show ?thesis by blast
qed

theorem position_grid_bijection_witness:
  "reachable example_board \<and> pos example_board (Card ''3'' ''C'') = Some (0, 1) \<and>
   rows example_board ! 0 ! 1 = Some (Card ''3'' ''C'')"
proof -
  from position_grid_bijection[OF example_reachable] example_pos(3)
  have "rows example_board ! 0 ! 1 = Some (Card ''3'' ''C'')" by blast
  with example_reachable example_pos(3) show ?thesis by simp
qed

section \<open>Finalized cards\<close>

text \<open>
  A run: from cell \<open>k\<close> to cell \<open>j\<close> of row \<open>r\<close>, each card is followed by its
  \<open>nextRank\<close>. A cell is finished when its row starts with a two and the run from
  the first cell reaches it.
\<close>

definition chain :: "game \<Rightarrow> nat \<Rightarrow> nat \<Rightarrow> nat \<Rightarrow> bool" where
  "chain g r k j \<longleftrightarrow>
     (\<forall>i. k \<le> i \<and> i < j \<longrightarrow>
        (\<exists>c d. elem (rows g ! r) i = Some c \<and> elem (rows g ! r) (Suc i) = Some d
           \<and> nextRank c = Some d))"

definition finished :: "game \<Rightarrow> nat \<Rightarrow> nat \<Rightarrow> bool" where
  "finished g r k \<longleftrightarrow>
     r < length (rows g) \<and> (\<exists>c. elem (rows g ! r) 0 = Some c \<and> rank c = ''2'') \<and> chain g r 0 k"

lemma chain_first:
  assumes "k < j"
  shows "chain g r k j \<longleftrightarrow>
    (\<exists>c d. elem (rows g ! r) k = Some c \<and> elem (rows g ! r) (Suc k) = Some d \<and> nextRank c = Some d)
    \<and> chain g r (Suc k) j"
proof -
  have "(k \<le> i \<and> i < j) \<longleftrightarrow> (i = k \<or> (Suc k \<le> i \<and> i < j))" for i
    using assms by auto
  then show ?thesis unfolding chain_def by auto
qed

lemma chain_refl: "chain g r k k"
  by (auto simp: chain_def)

lemma chained_none:
  assumes "\<not> (\<exists>c d. elem (rows g ! r) k = Some c \<and> elem (rows g ! r) (Suc k) = Some d
             \<and> nextRank c = Some d)"
  shows "{c. \<exists>j>k. chain g r k j \<and> elem (rows g ! r) j = Some c} = {}"
  using assms chain_first[of k _ g r] by blast

lemma chained_step:
  assumes "elem (rows g ! r) k = Some l" and "elem (rows g ! r) (Suc k) = Some n"
    and "nextRank l = Some n"
  shows "{c. \<exists>j>k. chain g r k j \<and> elem (rows g ! r) j = Some c}
     = insert n {c. \<exists>j>Suc k. chain g r (Suc k) j \<and> elem (rows g ! r) j = Some c}"
    (is "?A = insert n ?B")
proof (intro set_eqI iffI)
  fix c assume "c \<in> ?A"
  then obtain j where j: "k < j" "chain g r k j" "elem (rows g ! r) j = Some c" by blast
  from j(1,2) have ch: "chain g r (Suc k) j" by (simp add: chain_first)
  show "c \<in> insert n ?B"
  proof (cases "j = Suc k")
    case True
    with j(3) assms(2) show ?thesis by simp
  next
    case False
    with j(1) have "Suc k < j" by simp
    with ch j(3) show ?thesis by blast
  qed
next
  fix c assume "c \<in> insert n ?B"
  then consider "c = n" | "c \<in> ?B" by blast
  then show "c \<in> ?A"
  proof cases
    case 1
    have "chain g r k (Suc k)" using assms by (simp add: chain_first chain_refl)
    with 1 assms(2) show ?thesis by blast
  next
    case 2
    then obtain j where j: "Suc k < j" "chain g r (Suc k) j" "elem (rows g ! r) j = Some c"
      by blast
    from j(1) have "k < j" by simp
    with j(2) assms have "chain g r k j" by (simp add: chain_first)
    with \<open>k < j\<close> j(3) show ?thesis by blast
  qed
qed

lemma set_add: "set (add x xs) = insert x (set xs)"
  by (auto simp: add_def)

lemma distinct_add: "distinct xs \<Longrightarrow> distinct (add x xs)"
  by (simp add: add_def)

lemma wf_elem:
  assumes "wellformed g" and "pos g c = Some (r, k)"
  shows "r < length (rows g)" and "elem (rows g ! r) k = Some c"
  using wf_pos[OF assms] wf_rows[OF assms(1)] by (simp_all add: elem_def)

lemma wf_elem_pos:
  assumes "wellformed g" and "r < length (rows g)" and "elem (rows g ! r) k = Some c"
  shows "pos g c = Some (r, k)" and "c \<in> set CARDS"
proof -
  from assms(3) have k: "k < length (rows g ! r)" "rows g ! r ! k = Some c"
    by (auto simp: elem_def split: if_splits)
  from assms(2) wf_rows[OF assms(1)] have "r < 4" by simp
  from wf_cell[OF assms(1) this k(1)] k(2) show "pos g c = Some (r, k)" "c \<in> set CARDS"
    by auto
qed

lemma walk_set:
  "wellformed g \<Longrightarrow> pos g l = Some (r, k) \<Longrightarrow>
     \<exists>f. walk g l fin = Inr f
       \<and> set f = set fin \<union> {c. \<exists>j>k. chain g r k j \<and> elem (rows g ! r) j = Some c}"
proof (induction g l fin arbitrary: k rule: walk.induct)
  case (1 g l fin)
  note wf = "1.prems"(1) and pl = "1.prems"(2)
  from wf_elem[OF wf pl] have r: "r < length (rows g)" and el: "elem (rows g ! r) k = Some l" .
  show ?case
  proof (cases "nextRank l")
    case None
    have "walk g l fin = Inr fin" by (subst walk.simps) (simp add: None)
    moreover have "{c. \<exists>j>k. chain g r k j \<and> elem (rows g ! r) j = Some c} = {}"
      using el None by (intro chained_none) auto
    ultimately show ?thesis by (simp only: Un_empty_right) blast
  next
    case (Some n)
    have ctr: "cardToRight g l = Inr (elem (rows g ! r) (Suc k))"
      using pl r by (simp add: cardToRight_def)
    show ?thesis
    proof (cases "elem (rows g ! r) (Suc k) = Some n")
      case True
      from wf_elem_pos[OF wf r True] have pn: "pos g n = Some (r, Suc k)" by simp
      from "1.IH"[OF Some ctr True wf pn] obtain f where
        f: "walk g n (add n fin) = Inr f"
          "set f = set (add n fin)
             \<union> {c. \<exists>j>Suc k. chain g r (Suc k) j \<and> elem (rows g ! r) j = Some c}"
        by blast
      have "walk g l fin = Inr f"
        by (subst walk.simps) (simp add: Some ctr True f(1))
      moreover have "set f = set fin \<union> {c. \<exists>j>k. chain g r k j \<and> elem (rows g ! r) j = Some c}"
        unfolding f(2) chained_step[OF el True Some] set_add by blast
      ultimately show ?thesis by blast
    next
      case False
      have "walk g l fin = Inr fin" by (subst walk.simps) (simp add: Some ctr False)
      moreover have "{c. \<exists>j>k. chain g r k j \<and> elem (rows g ! r) j = Some c} = {}"
        using el Some False by (intro chained_none) auto
      ultimately show ?thesis by (simp only: Un_empty_right) blast
    qed
  qed
qed

lemma finished_elem:
  assumes "finished g r k"
  shows "\<exists>c. elem (rows g ! r) k = Some c"
proof (cases k)
  case 0
  with assms show ?thesis by (auto simp: finished_def)
next
  case (Suc j)
  with assms have "chain g r 0 (Suc j)" by (simp add: finished_def)
  then show ?thesis unfolding chain_def Suc by blast
qed

lemma finished_down: "finished g r k \<Longrightarrow> j \<le> k \<Longrightarrow> finished g r j"
  unfolding finished_def chain_def by auto

lemma finalizedLoop_set:
  "wellformed g \<Longrightarrow> rows g = pre @ rs \<Longrightarrow>
     \<exists>f. finalizedLoop g rs fin = Inr f
       \<and> set f = set fin
           \<union> {c. \<exists>r k. length pre \<le> r \<and> finished g r k \<and> elem (rows g ! r) k = Some c}"
proof (induction rs arbitrary: pre fin)
  case Nil
  then have "\<not> finished g r k" if "length pre \<le> r" for r k
    using that by (simp add: finished_def)
  then show ?case by auto
next
  case (Cons row rest)
  note wf = Cons.prems(1) and rows = Cons.prems(2)
  let ?i = "length pre"
  let ?S = "\<lambda>n. {c. \<exists>r k. n \<le> r \<and> finished g r k \<and> elem (rows g ! r) k = Some c}"
  let ?Si = "{c. \<exists>k. finished g ?i k \<and> elem row k = Some c}"
  have rowi: "rows g ! ?i = row" and i: "?i < length (rows g)" using rows by simp_all
  have split: "?S ?i = ?Si \<union> ?S (Suc ?i)"
  proof -
    have "(?i \<le> r) \<longleftrightarrow> (r = ?i \<or> Suc ?i \<le> r)" for r by auto
    then show ?thesis using rowi by auto
  qed
  from rows have rows': "rows g = (pre @ [row]) @ rest" by simp
  have "\<exists>f1. finalizedLoop g (row # rest) fin = finalizedLoop g rest f1
            \<and> set f1 = set fin \<union> ?Si"
  proof (cases "row = []")
    case True
    then have "?Si = {}" by (simp add: elem_def)
    with True show ?thesis by auto
  next
    case False
    then have "0 < length row" by simp
    with wf_cell[OF wf, of ?i 0] i wf_rows[OF wf] rowi obtain c0 where
      c0: "row ! 0 = Some c0" "pos g c0 = Some (?i, 0)" by auto
    with False have e0: "elem row 0 = Some c0" by (simp add: elem_def)
    show ?thesis
    proof (cases "rank c0 = ''2''")
      case r2: False
      with e0 rowi have "\<not> finished g ?i k" for k by (simp add: finished_def)
      then have "?Si = {}" by simp
      with False e0 r2 show ?thesis by auto
    next
      case True
      from walk_set[OF wf c0(2), of "add c0 fin"] obtain f1 where
        f1: "walk g c0 (add c0 fin) = Inr f1"
          "set f1 = set (add c0 fin)
             \<union> {c. \<exists>j>0. chain g ?i 0 j \<and> elem (rows g ! ?i) j = Some c}"
        by blast
      have fin_iff: "finished g ?i k \<longleftrightarrow> chain g ?i 0 k" for k
        using e0 rowi i True by (auto simp: finished_def)
      have "?Si = insert c0 {c. \<exists>j>0. chain g ?i 0 j \<and> elem row j = Some c}"
      proof (intro set_eqI iffI)
        fix c assume "c \<in> ?Si"
        then obtain k where k: "chain g ?i 0 k" "elem row k = Some c"
          unfolding fin_iff by blast
        show "c \<in> insert c0 {c. \<exists>j>0. chain g ?i 0 j \<and> elem row j = Some c}"
        proof (cases "k = 0")
          case True
          with k e0 show ?thesis by simp
        next
          case False
          with k show ?thesis by blast
        qed
      next
        fix c assume "c \<in> insert c0 {c. \<exists>j>0. chain g ?i 0 j \<and> elem row j = Some c}"
        then consider "c = c0" | "\<exists>j>0. chain g ?i 0 j \<and> elem row j = Some c" by blast
        then show "c \<in> ?Si"
        proof cases
          case 1
          with e0 chain_refl[of g ?i 0] show ?thesis unfolding fin_iff by blast
        next
          case 2
          then show ?thesis unfolding fin_iff by blast
        qed
      qed
      with f1(2) rowi have "set f1 = set fin \<union> ?Si" by (simp add: set_add)
      moreover have "finalizedLoop g (row # rest) fin = finalizedLoop g rest f1"
        using False e0 True f1(1) by simp
      ultimately show ?thesis by blast
    qed
  qed
  then obtain f1 where f1: "finalizedLoop g (row # rest) fin = finalizedLoop g rest f1"
    "set f1 = set fin \<union> ?Si" by blast
  from Cons.IH[OF wf rows', of f1]
  have "\<exists>f. finalizedLoop g rest f1 = Inr f \<and> set f = set f1 \<union> ?S (Suc ?i)"
    by simp
  then obtain f where
    f: "finalizedLoop g rest f1 = Inr f" "set f = set f1 \<union> ?S (Suc ?i)" by blast
  have "finalizedLoop g (row # rest) fin = Inr f" by (simp only: f1(1) f(1))
  moreover have "set f = set fin \<union> ?S ?i"
    unfolding split by (simp only: f(2) f1(2) Un_assoc)
  ultimately show ?case by blast
qed

lemma finalized_iff:
  assumes "wellformed g"
  shows "\<exists>f. getFinalizedCards g = Inr f
           \<and> (\<forall>c. c \<in> set f \<longleftrightarrow> (\<exists>r k. finished g r k \<and> elem (rows g ! r) k = Some c))"
proof -
  have "rows g = [] @ rows g" by simp
  from finalizedLoop_set[OF assms this, of "[]"] obtain f where
    f: "finalizedLoop g (rows g) [] = Inr f"
      "set f = set []
         \<union> {c. \<exists>r k. length ([] :: card option list list) \<le> r \<and> finished g r k
                   \<and> elem (rows g ! r) k = Some c}"
    by blast
  from f(2) have "c \<in> set f \<longleftrightarrow> (\<exists>r k. finished g r k \<and> elem (rows g ! r) k = Some c)" for c
    by simp
  with f(1) show ?thesis by (simp add: getFinalizedCards_def)
qed

lemma finalized_cell:
  assumes wf: "wellformed g" and f: "getFinalizedCards g = Inr f"
    and r: "r < length (rows g)" and k: "k < length (rows g ! r)"
  shows "has f (rows g ! r ! k) \<longleftrightarrow> finished g r k"
proof -
  from wf_cell[OF wf _ k] r wf_rows[OF wf] obtain c where
    c: "rows g ! r ! k = Some c" "pos g c = Some (r, k)" by auto
  from finalized_iff[OF wf] f have iff:
    "c \<in> set f \<longleftrightarrow> (\<exists>r k. finished g r k \<and> elem (rows g ! r) k = Some c)" by auto
  show ?thesis
  proof
    assume "has f (rows g ! r ! k)"
    with c iff obtain r' k' where f': "finished g r' k'" "elem (rows g ! r') k' = Some c"
      by (auto simp: has_def)
    from f'(1) have "r' < length (rows g)" by (simp add: finished_def)
    from wf_elem_pos(1)[OF wf this f'(2)] c(2) f'(1) show "finished g r k" by simp
  next
    assume "finished g r k"
    moreover from c(1) k have "elem (rows g ! r) k = Some c" by (simp add: elem_def)
    ultimately show "has f (rows g ! r ! k)" using c iff by (auto simp: has_def)
  qed
qed

lemma ranked_not_blank:
  assumes "c \<in> set CARDS" and "rank c \<in> set RANKS"
  shows "\<not> isBlank c"
proof -
  from CARDS_cases[OF assms(1)] show ?thesis
  proof
    assume "rank c \<in> set RANKS \<and> suit c \<in> set SUITS"
    then show ?thesis by (auto simp: isBlank_def SUITS_def)
  next
    assume "rank c \<in> {''B1'', ''B2'', ''B3'', ''B4''} \<and> suit c = ''B''"
    with assms(2) show ?thesis by (auto simp: RANKS_def)
  qed
qed

lemma finished_not_blank:
  assumes wf: "wellformed g" and fin: "finished g r k" and el: "elem (rows g ! r) k = Some c"
  shows "\<not> isBlank c"
proof (cases k)
  case 0
  with fin el have "rank c = ''2''" by (auto simp: finished_def)
  moreover from fin have "r < length (rows g)" by (simp add: finished_def)
  from wf_elem_pos(2)[OF wf this el] have "c \<in> set CARDS" .
  ultimately show ?thesis by (intro ranked_not_blank) (simp_all add: RANKS_def)
next
  case (Suc j)
  with fin have "chain g r 0 (Suc j)" by (simp add: finished_def)
  then obtain b d where "elem (rows g ! r) j = Some b" "elem (rows g ! r) (Suc j) = Some d"
      "nextRank b = Some d"
    unfolding chain_def by blast
  with el Suc have "nextRank b = Some c" by simp
  from nextRank_SomeD(1,2)[OF this] show ?thesis by (rule ranked_not_blank)
qed

lemma finalized_not_blank:
  assumes wf: "wellformed g" and f: "getFinalizedCards g = Inr f" and c: "c \<in> set f"
  shows "\<not> isBlank c"
proof -
  from finalized_iff[OF wf] f c obtain r k where
    "finished g r k" "elem (rows g ! r) k = Some c" by auto
  with wf show ?thesis by (rule finished_not_blank)
qed

lemma takeWhile_nth_holds: "k < length (takeWhile P xs) \<Longrightarrow> P (xs ! k)"
  using nth_mem[of k "takeWhile P xs"] set_takeWhileD[of "xs ! k" P xs]
  by (simp add: takeWhile_nth)

lemma elem_takeWhile:
  "k < length (takeWhile P xs) \<Longrightarrow> elem (takeWhile P xs) k = elem xs k"
  using length_takeWhile_le[of P xs] by (simp add: elem_def takeWhile_nth)

lemma finished_transfer:
  assumes "finished g r k" and "length (rows g') = length (rows g)"
    and "\<And>i. i \<le> k \<Longrightarrow> elem (rows g' ! r) i = elem (rows g ! r) i"
  shows "finished g' r k"
proof -
  from assms(1) have a: "r < length (rows g)"
    "\<exists>c. elem (rows g ! r) 0 = Some c \<and> rank c = ''2''" "chain g r 0 k"
    by (simp_all add: finished_def)
  have "chain g' r 0 k"
    unfolding chain_def
  proof (intro allI impI)
    fix i assume i: "0 \<le> i \<and> i < k"
    with a(3) obtain c d where "elem (rows g ! r) i = Some c" "elem (rows g ! r) (Suc i) = Some d"
        "nextRank c = Some d"
      unfolding chain_def by blast
    with i assms(3)[of i] assms(3)[of "Suc i"]
    show "\<exists>c d. elem (rows g' ! r) i = Some c \<and> elem (rows g' ! r) (Suc i) = Some d
            \<and> nextRank c = Some d"
      by simp
  qed
  with a assms(2) assms(3)[of 0] show ?thesis by (simp add: finished_def)
qed

lemma cleared_all_finished:
  assumes wf: "wellformed g" and f: "getFinalizedCards g = Inr f"
    and f': "getFinalizedCards (cleared f g) = Inr f'"
    and row: "row \<in> set (rows (cleared f g))"
  shows "\<forall>x\<in>set row. has f' x"
proof
  let ?g = "cleared f g"
  fix x assume x: "x \<in> set row"
  have wf': "wellformed ?g" using wf by (rule cleared_wellformed)
  have rows': "rows ?g = map (takeWhile (has f)) (rows g)" by (simp add: cleared_def)
  from row obtain r where r: "r < length (rows ?g)" "rows ?g ! r = row"
    by (auto simp: in_set_conv_nth)
  from x obtain k where k: "k < length row" "row ! k = x" by (auto simp: in_set_conv_nth)
  from r rows' have rg: "r < length (rows g)" and rowr: "row = takeWhile (has f) (rows g ! r)"
    by auto
  have lt: "i < length (takeWhile (has f) (rows g ! r))" if "i \<le> k" for i
    using that k(1) rowr by simp
  have "has f (rows g ! r ! k)" using lt[of k] by (simp add: takeWhile_nth_holds)
  moreover have "k < length (rows g ! r)"
    using lt[of k] length_takeWhile_le[of "has f" "rows g ! r"] by simp
  ultimately have "finished g r k" using finalized_cell[OF wf f rg] by simp
  then have "finished ?g r k"
  proof (rule finished_transfer)
    show "length (rows ?g) = length (rows g)" by (simp add: rows')
    show "elem (rows ?g ! r) i = elem (rows g ! r) i" if "i \<le> k" for i
      using lt[OF that] r(2) rowr by (simp add: elem_takeWhile)
  qed
  with finalized_cell[OF wf' f' r(1), of k] k r(2) show "has f' x" by simp
qed

lemma cleared_fixed:
  assumes wf: "wellformed g" and f: "getFinalizedCards g = Inr f"
    and f': "getFinalizedCards (cleared f g) = Inr f'"
  shows "cleared f' (cleared f g) = cleared f g"
proof -
  let ?g = "cleared f g"
  have wf': "wellformed ?g" using wf by (rule cleared_wellformed)
  note all = cleared_all_finished[OF wf f f']
  have t: "takeWhile (has f') row = row" if "row \<in> set (rows ?g)" for row
    using all[OF that] by simp
  have d: "dropWhile (has f') row = []" if "row \<in> set (rows ?g)" for row
    using all[OF that] by simp
  have rows: "map (takeWhile (has f')) (rows ?g) = rows ?g"
    using t by (simp add: map_idI)
  have "concat (map (dropWhile (has f')) (rows ?g)) = []"
    using d by simp
  then have tl: "tails f' ?g = []" by (simp add: tails_def)
  have "(\<lambda>c. if c \<in> set (stock ?g) \<or> Some c \<in> set (tails f' ?g) then None else pos ?g c)
      = pos ?g"
    using wf_stock[OF wf'] by (auto simp: tl fun_eq_iff)
  then show ?thesis
    unfolding cleared_def[of f' ?g] by (simp add: rows tl)
qed

lemma clearUnfinished_total:
  assumes "wellformed g"
  shows "\<exists>f. getFinalizedCards g = Inr f \<and> clearUnfinished g = Inr (cleared f g)"
  using finalized_iff[OF assms] clearUnfinished_cleared[OF assms] by blast

lemma clearUnfinished_twice:
  assumes wf: "wellformed g" and cl: "clearUnfinished g = Inr g'"
  shows "clearUnfinished g' = Inr g'"
proof -
  from clearUnfinished_total[OF wf] cl obtain f where
    f: "getFinalizedCards g = Inr f" "g' = cleared f g" by auto
  have wf': "wellformed g'" using wf cl by (rule clearUnfinished_wellformed)
  from clearUnfinished_total[OF wf'] obtain f' where
    f': "getFinalizedCards g' = Inr f'" "clearUnfinished g' = Inr (cleared f' g')" by blast
  from cleared_fixed[OF wf f(1) f'(1)[unfolded f(2)]] f'(2) f(2) show ?thesis by simp
qed

lemma cleared_blank_unplaced:
  assumes wf: "wellformed g" and f: "getFinalizedCards g = Inr f" and b: "isBlank b"
  shows "pos (cleared f g) b = None"
proof (rule ccontr)
  assume "pos (cleared f g) b \<noteq> None"
  then obtain r k where p: "pos g b = Some (r, k)" and nt: "Some b \<notin> set (tails f g)"
    by (auto simp: cleared_def split: if_splits)
  from nt tails_iff[OF wf p] have lt: "k < length (takeWhile (has f) (rows g ! r))" by simp
  then have "has f (rows g ! r ! k)" by (rule takeWhile_nth_holds)
  with wf_pos[OF wf p] have "b \<in> set f" by (simp add: has_def)
  from finalized_not_blank[OF wf f this] b show False by simp
qed

lemma movableLoop_unplaced:
  "(\<forall>b\<in>set bs. pos g b = None) \<Longrightarrow> movableLoop g bs acc = Inr acc"
  by (induction bs) simp_all

lemma next_prev_all:
  "\<forall>p\<in>set CARDS. (case nextRank p of None \<Rightarrow> True | Some c \<Rightarrow> prevRank c = Some p)"
  by code_simp

lemma next_prev: "p \<in> set CARDS \<Longrightarrow> nextRank p = Some c \<Longrightarrow> prevRank c = Some p"
  using next_prev_all by (auto split: option.splits)

lemma next_exists_all:
  "\<forall>l\<in>set CARDS. \<not> isBlank l \<and> rank l \<noteq> ''K'' \<longrightarrow> nextRank l \<noteq> None"
  by code_simp

lemma move_finalized_noop:
  assumes wf: "wellformed g" and f: "getFinalizedCards g = Inr f" and c: "c \<in> set f"
    and r2: "rank c \<noteq> ''2''"
  shows "move c g = Inr g"
proof -
  from finalized_iff[OF wf] f c obtain r k where
    fin: "finished g r k" and el: "elem (rows g ! r) k = Some c" by auto
  from fin have r: "r < length (rows g)" by (simp add: finished_def)
  have "k \<noteq> 0"
  proof
    assume "k = 0"
    with fin el have "rank c = ''2''" by (auto simp: finished_def)
    with r2 show False by simp
  qed
  then obtain j where k: "k = Suc j" by (cases k) auto
  with fin have "chain g r 0 (Suc j)" by (simp add: finished_def)
  then obtain p d where p: "elem (rows g ! r) j = Some p" "elem (rows g ! r) (Suc j) = Some d"
      "nextRank p = Some d"
    unfolding chain_def by blast
  with el k have np: "nextRank p = Some c" by simp
  from wf_elem_pos[OF wf r p(1)] have pp: "pos g p = Some (r, j)" "p \<in> set CARDS" .
  from next_prev[OF pp(2) np] have prev: "prevRank c = Some p" .
  from el k have len: "Suc j < length (rows g ! r)" by (auto simp: elem_def split: if_splits)
  from finished_not_blank[OF wf fin el] have nb: "\<not> isBlank c" .
  from el k have "elem (rows g ! r) (j + 1) = Some c" by simp
  with r2 prev pp(1) r len nb show ?thesis by (simp add: move_def)
qed

lemma move_keeps_finalized:
  assumes wf: "wellformed g" and f: "getFinalizedCards g = Inr f" and mv: "move c g = Inr g'"
    and d: "d \<in> set f" and ne: "d \<noteq> c \<or> rank c \<noteq> ''2''"
  shows "pos g' d = pos g d"
proof (cases "d = c")
  case True
  with ne d move_finalized_noop[OF wf f, of c] mv show ?thesis by simp
next
  case False
  from move_cases[OF wf mv] show ?thesis
  proof
    assume "g' = g"
    then show ?thesis by simp
  next
    assume "\<exists>e. e \<in> set getBlanks \<and> e \<noteq> c \<and> pos g c \<noteq> None \<and> pos g e \<noteq> None
              \<and> swap g c e = Inr g'"
    then obtain e r1 k1 r2 k2 where e: "e \<in> set getBlanks" "e \<noteq> c" "pos g c = Some (r1, k1)"
        "pos g e = Some (r2, k2)" "swap g c e = Inr g'"
      by auto
    from swap_placed[OF wf e(3,4) e(2)[symmetric]] e(5)
    have p: "pos g' = (pos g)(c := pos g e, e := pos g c)" by auto
    from finalized_not_blank[OF wf f d] e(1) have "d \<noteq> e" by (auto simp: getBlanks_iff)
    with False p show ?thesis by simp
  qed
qed

lemma set_fold_add: "set (fold add xs acc) = set xs \<union> set acc"
  by (induction xs arbitrary: acc) (auto simp: set_add)

lemma distinct_fold_add: "distinct acc \<Longrightarrow> distinct (fold add xs acc)"
  by (induction xs arbitrary: acc) (auto simp: distinct_add)

text \<open>What one blank on the board nominates.\<close>

definition nominated :: "game \<Rightarrow> card \<Rightarrow> card option set" where
  "nominated g b =
     (case pos g b of
        None \<Rightarrow> {}
      | Some (r, k) \<Rightarrow>
          if k = 0 then Some ` set (getCardsByRank ''2'')
          else {x. \<exists>l. elem (rows g ! r) (k - 1) = Some l \<and> \<not> isBlank l \<and> rank l \<noteq> ''K''
                      \<and> x = nextRank l})"

lemma movableLoop_set:
  assumes wf: "wellformed g"
  shows "\<exists>m. movableLoop g bs acc = Inr m \<and> set m = set acc \<union> (\<Union>b\<in>set bs. nominated g b)
           \<and> (distinct acc \<longrightarrow> distinct m)"
proof (induction bs arbitrary: acc)
  case Nil
  then show ?case by simp
next
  case (Cons b bs)
  have "\<exists>acc'. movableLoop g (b # bs) acc = movableLoop g bs acc'
          \<and> set acc' = set acc \<union> nominated g b \<and> (distinct acc \<longrightarrow> distinct acc')"
  proof (cases "pos g b")
    case None
    then show ?thesis by (auto simp: nominated_def)
  next
    case (Some rk)
    obtain r k where rk: "rk = (r, k)" by (cases rk)
    note p = Some[unfolded rk]
    show ?thesis
    proof (cases "k = 0")
      case True
      with p have "nominated g b = Some ` set (getCardsByRank ''2'')"
        by (simp add: nominated_def)
      moreover have "movableLoop g (b # bs) acc
          = movableLoop g bs (fold add (map Some (getCardsByRank ''2'')) acc)"
        using p True by simp
      ultimately show ?thesis
        using set_fold_add[of "map Some (getCardsByRank ''2'')" acc]
          distinct_fold_add[of acc "map Some (getCardsByRank ''2'')"]
        by (intro exI[of _ "fold add (map Some (getCardsByRank ''2'')) acc"]) auto
    next
      case False
      from wf_elem(1)[OF wf p] have r: "r < length (rows g)" .
      with p False have ctl: "cardToLeft g b = Inr (elem (rows g ! r) (k - 1))"
        by (simp add: cardToLeft_def)
      show ?thesis
      proof (cases "elem (rows g ! r) (k - 1)")
        case None
        with p False have "nominated g b = {}" by (simp add: nominated_def)
        moreover have "movableLoop g (b # bs) acc = movableLoop g bs acc"
          using p False ctl None by simp
        ultimately show ?thesis by auto
      next
        case (Some l)
        show ?thesis
        proof (cases "\<not> isBlank l \<and> rank l \<noteq> ''K''")
          case True
          with p False Some have "nominated g b = {nextRank l}"
            by (auto simp: nominated_def)
          moreover have "movableLoop g (b # bs) acc = movableLoop g bs (add (nextRank l) acc)"
            using p False ctl Some True by simp
          ultimately show ?thesis
            by (intro exI[of _ "add (nextRank l) acc"]) (simp add: set_add distinct_add)
        next
          case nt: False
          with p False Some have "nominated g b = {}" by (auto simp: nominated_def)
          moreover have "movableLoop g (b # bs) acc = movableLoop g bs acc"
            using p False ctl Some nt by auto
          ultimately show ?thesis by auto
        qed
      qed
    qed
  qed
  then obtain acc' where a: "movableLoop g (b # bs) acc = movableLoop g bs acc'"
    "set acc' = set acc \<union> nominated g b" "distinct acc \<longrightarrow> distinct acc'" by blast
  from Cons.IH[of acc'] obtain m where
    m: "movableLoop g bs acc' = Inr m" "set m = set acc' \<union> (\<Union>b\<in>set bs. nominated g b)"
      "distinct acc' \<longrightarrow> distinct m" by blast
  have "movableLoop g (b # bs) acc = Inr m" by (simp only: a(1) m(1))
  moreover have "set m = set acc \<union> (\<Union>b\<in>set (b # bs). nominated g b)"
    unfolding m(2) a(2) by auto
  ultimately show ?case using a(3) m(3) by blast
qed

section \<open>More of the example board\<close>

definition clubs :: "card list" where
  "clubs = [Card ''2'' ''C'', Card ''3'' ''C'', Card ''4'' ''C'', Card ''5'' ''C'',
      Card ''6'' ''C'', Card ''7'' ''C'', Card ''8'' ''C'', Card ''9'' ''C'', Card ''10'' ''C'',
      Card ''J'' ''C'', Card ''Q'' ''C'', Card ''K'' ''C'']"

lemma example_finalized: "getFinalizedCards example_board = Inr clubs"
  by code_simp

definition moved_board :: game where
  "moved_board =
     (case move (Card ''2'' ''C'') example_board of Inr g \<Rightarrow> g | Inl e \<Rightarrow> example_board)"

lemma example_move: "move (Card ''2'' ''C'') example_board = Inr moved_board"
proof -
  have "\<not> isl (move (Card ''2'' ''C'') example_board)" by code_simp
  then show ?thesis
    by (cases "move (Card ''2'' ''C'') example_board") (simp_all add: moved_board_def)
qed

lemma moved_pos:
  "pos moved_board (Card ''2'' ''C'') = Some (1, 0)"
  "pos moved_board (Card ''3'' ''C'') = Some (0, 1)"
  "pos moved_board (Card ''B1'' ''B'') = Some (0, 0)"
  by code_simp+

definition cleared_board :: game where
  "cleared_board =
     (case clearUnfinished example_board of Inr g \<Rightarrow> g | Inl e \<Rightarrow> example_board)"

lemma example_clear: "clearUnfinished example_board = Inr cleared_board"
proof -
  have "\<not> isl (clearUnfinished example_board)" by code_simp
  then show ?thesis
    by (cases "clearUnfinished example_board") (simp_all add: cleared_board_def)
qed

lemma cleared_rows: "rows cleared_board = [map Some clubs, [], [], []]"
  by code_simp

lemma cleared_stock_length: "length (stock cleared_board) = 40"
  by code_simp

section \<open>Clearing and dealing\<close>

text \<open>
  Claim C6. In every reachable state \<open>clearUnfinished\<close> returns a state, and applied
  to that state it returns the same state again: the same rows, stock, positions and
  deal counter.
\<close>

theorem clearUnfinished_idempotent:
  "reachable g \<Longrightarrow> \<exists>g'. clearUnfinished g = Inr g' \<and> clearUnfinished g' = Inr g'"
proof -
  assume "reachable g"
  then have wf: "wellformed g" by (rule reachable_wellformed)
  from clearUnfinished_total[OF wf] obtain g' where cl: "clearUnfinished g = Inr g'" by blast
  from clearUnfinished_twice[OF wf cl] cl show ?thesis by blast
qed

theorem clearUnfinished_idempotent_witness:
  "reachable example_board \<and> clearUnfinished example_board = Inr cleared_board \<and>
   clearUnfinished cleared_board = Inr cleared_board \<and>
   rows cleared_board = [map Some clubs, [], [], []]"
proof -
  from clearUnfinished_idempotent[OF example_reachable] obtain g' where
    "clearUnfinished example_board = Inr g'" "clearUnfinished g' = Inr g'" by blast
  with example_clear have "clearUnfinished cleared_board = Inr cleared_board" by simp
  with example_reachable example_clear cleared_rows show ?thesis by simp
qed

text \<open>
  Claim C7. Whatever the shuffle chooses, \<open>deal\<close> on the initial state returns a state
  with four rows of thirteen cards and an empty stock, in which the card in cell \<open>k\<close> of
  row \<open>r\<close> has the position \<open>(r, k)\<close>.
\<close>

theorem deal_round_trip:
  "\<exists>g'. deal rnd initial = Inr g' \<and> length (rows g') = 4
      \<and> (\<forall>row\<in>set (rows g'). length row = 13) \<and> stock g' = []
      \<and> (\<forall>r<4. \<forall>k<13. \<exists>c. rows g' ! r ! k = Some c \<and> pos g' c = Some (r, k))"
proof -
  note wf = wellformed_initial
  have mv: "getMovableCards initial = Inr []"
    by (simp add: getMovableCards_def movableLoop_unplaced initial_def)
  from clearUnfinished_total[OF wf] obtain self where cl: "clearUnfinished initial = Inr self"
    by blast
  have wfs: "wellformed self" using wf cl by (rule clearUnfinished_wellformed)
  from deal_dealt[OF wfs mv cl, of rnd] obtain g' where
    g': "deal rnd initial = Inr g'" "wellformed g'" "stock g' = []" "length (rows g') = 4"
      "\<forall>row\<in>set (rows g'). length row = 13"
    by blast
  have "\<exists>c. rows g' ! r ! k = Some c \<and> pos g' c = Some (r, k)" if "r < 4" "k < 13" for r k
  proof -
    from that(1) g'(4,5) have "length (rows g' ! r) = 13" by simp
    with wf_cell[OF g'(2) that(1), of k] that(2) show ?thesis by auto
  qed
  with g' show ?thesis by blast
qed

theorem deal_round_trip_witness:
  "deal example_choices initial = Inr example_board \<and> length (rows example_board) = 4 \<and>
   length (rows example_board ! 1) = 13 \<and> stock example_board = [] \<and>
   rows example_board ! 1 ! 0 = Some (Card ''B1'' ''B'') \<and>
   pos example_board (Card ''B1'' ''B'') = Some (1, 0)"
proof -
  from deal_round_trip[of example_choices] example_deal
  have a: "length (rows example_board) = 4" "\<forall>row\<in>set (rows example_board). length row = 13"
    "stock example_board = []"
    "\<forall>r<4. \<forall>k<13. \<exists>c. rows example_board ! r ! k = Some c \<and> pos example_board c = Some (r, k)"
    by auto
  from a(1,2) have len: "length (rows example_board ! 1) = 13" by simp
  from a(4)[rule_format, of 1 0] obtain c where
    c: "rows example_board ! 1 ! 0 = Some c" "pos example_board c = Some (1, 0)" by auto
  have "rows example_board ! 1 ! 0 = Some (Card ''B1'' ''B'')"
    by (simp add: example_rows)
  with c have "c = Card ''B1'' ''B''" by simp
  with c len a(1,3) example_deal show ?thesis by simp
qed

text \<open>
  The initial state is the one of the first \<open>new Game()\<close>, when no card has a
  position. A later \<open>new Game()\<close> has the same stock and rows, but the card objects
  keep the positions of the game played before; \<open>deal\<close> then reads the positions of
  the blanks, and with a blank in column 0 it is blocked and returns the empty board.
\<close>

lemma deal_new_game_over_dealt_cards:
  "deal rnd (initial\<lparr> pos := pos example_board \<rparr>) = Inr (initial\<lparr> pos := pos example_board \<rparr>)"
proof -
  have "case getMovableCards (initial\<lparr> pos := pos example_board \<rparr>) of
          Inl e \<Rightarrow> False | Inr m \<Rightarrow> m \<noteq> []"
    by code_simp
  then obtain m where "getMovableCards (initial\<lparr> pos := pos example_board \<rparr>) = Inr m" "m \<noteq> []"
    by (auto split: sum.splits)
  then show ?thesis by (rule deal_blocked)
qed

section \<open>Movable cards\<close>

text \<open>
  The derivation of the movable cards in the words of the specification: every blank
  that has a position contributes, in column 0, every card of rank 2, and otherwise
  the \<open>nextRank\<close> of the card to its left when that card exists, is not a blank and is
  not a king.
\<close>

definition movable_spec :: "game \<Rightarrow> card set" where
  "movable_spec g =
     {c. \<exists>b\<in>set getBlanks. \<exists>r k. pos g b = Some (r, k) \<and>
        (if k = 0 then c \<in> set CARDS \<and> rank c = ''2''
         else \<exists>l. elem (rows g ! r) (k - 1) = Some l \<and> \<not> isBlank l \<and> rank l \<noteq> ''K''
                \<and> nextRank l = Some c)}"

lemma movable_spec_head:
  assumes "b \<in> set getBlanks" and "pos g b = Some (r, 0)" and "c \<in> set CARDS"
    and "rank c = ''2''"
  shows "c \<in> movable_spec g"
  unfolding movable_spec_def mem_Collect_eq
  by (rule bexI[OF _ assms(1)], rule exI[of _ r], rule exI[of _ 0]) (simp add: assms)

lemma movable_spec_next:
  assumes "b \<in> set getBlanks" and "pos g b = Some (r, k)" and "k \<noteq> 0"
    and "elem (rows g ! r) (k - 1) = Some l" and "\<not> isBlank l" and "rank l \<noteq> ''K''"
    and "nextRank l = Some c"
  shows "c \<in> movable_spec g"
  unfolding movable_spec_def mem_Collect_eq
  by (rule bexI[OF _ assms(1)], rule exI[of _ r], rule exI[of _ k]) (use assms in auto)

lemma nominated_spec:
  assumes wf: "wellformed g"
  shows "(\<Union>b\<in>set getBlanks. nominated g b) = Some ` movable_spec g"
proof (intro set_eqI iffI)
  fix x assume "x \<in> (\<Union>b\<in>set getBlanks. nominated g b)"
  then obtain b where b1: "b \<in> set getBlanks" and xb: "x \<in> nominated g b" by blast
  from xb obtain rk where rk: "pos g b = Some rk" by (cases "pos g b") (auto simp: nominated_def)
  obtain r k where "rk = (r, k)" by (cases rk)
  with rk have b2: "pos g b = Some (r, k)" by simp
  note b = b1 b2
  from xb b2 have x: "if k = 0 then x \<in> Some ` set (getCardsByRank ''2'')
            else \<exists>l. elem (rows g ! r) (k - 1) = Some l \<and> \<not> isBlank l \<and> rank l \<noteq> ''K''
                   \<and> x = nextRank l"
    by (simp add: nominated_def split: if_splits)
  show "x \<in> Some ` movable_spec g"
  proof (cases "k = 0")
    case True
    with x obtain c where c: "x = Some c" "c \<in> set CARDS" "rank c = ''2''"
      by (auto simp: getCardsByRank_def)
    from b(2) True have "pos g b = Some (r, 0)" by simp
    from movable_spec_head[OF b(1) this c(2,3)] c(1) show ?thesis by simp
  next
    case False
    with x obtain l where l: "elem (rows g ! r) (k - 1) = Some l" "\<not> isBlank l"
        "rank l \<noteq> ''K''" "x = nextRank l" by auto
    from wf_elem_pos(2)[OF wf wf_elem(1)[OF wf b(2)] l(1)] have "l \<in> set CARDS" .
    with next_exists_all l(2,3) obtain c where c: "nextRank l = Some c" by auto
    from movable_spec_next[OF b False l(1,2,3) c] l(4) c show ?thesis by simp
  qed
next
  fix x assume "x \<in> Some ` movable_spec g"
  then obtain c b r k where c: "x = Some c" and b: "b \<in> set getBlanks" "pos g b = Some (r, k)"
    and s: "if k = 0 then c \<in> set CARDS \<and> rank c = ''2''
            else \<exists>l. elem (rows g ! r) (k - 1) = Some l \<and> \<not> isBlank l \<and> rank l \<noteq> ''K''
                   \<and> nextRank l = Some c"
    unfolding movable_spec_def by auto
  have "x \<in> nominated g b"
  proof (cases "k = 0")
    case True
    with s c b(2) show ?thesis by (auto simp: nominated_def getCardsByRank_def)
  next
    case False
    with s c b(2) show ?thesis by (auto simp: nominated_def)
  qed
  with b(1) show "x \<in> (\<Union>b\<in>set getBlanks. nominated g b)" by blast
qed

lemma twos_eq:
  "{c \<in> set CARDS. rank c = ''2''}
     = {Card ''2'' ''C'', Card ''2'' ''D'', Card ''2'' ''H'', Card ''2'' ''S''}"
proof -
  have "getCardsByRank ''2'' = [Card ''2'' ''C'', Card ''2'' ''D'', Card ''2'' ''H'', Card ''2'' ''S'']"
    by code_simp
  moreover have "{c \<in> set CARDS. rank c = ''2''} = set (getCardsByRank ''2'')"
    by (auto simp: getCardsByRank_def)
  ultimately show ?thesis by simp
qed

text \<open>
  Claim C8. In every reachable state \<open>getMovableCards\<close> returns a set (a list without
  duplicates) whose elements are exactly the cards of that derivation; a blank without
  a position contributes nothing, and the cards of rank 2 are the four twos.
\<close>

theorem movable_derivation:
  "reachable g \<Longrightarrow>
     (\<exists>m. getMovableCards g = Inr m \<and> distinct m \<and> set m = Some ` movable_spec g) \<and>
     {c \<in> set CARDS. rank c = ''2''}
       = {Card ''2'' ''C'', Card ''2'' ''D'', Card ''2'' ''H'', Card ''2'' ''S''}"
proof -
  assume "reachable g"
  then have wf: "wellformed g" by (rule reachable_wellformed)
  from movableLoop_set[OF wf, of getBlanks "[]"] nominated_spec[OF wf]
  have "\<exists>m. getMovableCards g = Inr m \<and> distinct m \<and> set m = Some ` movable_spec g"
    by (auto simp: getMovableCards_def)
  with twos_eq show ?thesis by blast
qed

theorem movable_derivation_witness:
  "reachable example_board \<and>
   getMovableCards example_board =
     Inr (map Some [Card ''2'' ''C'', Card ''2'' ''D'', Card ''2'' ''H'', Card ''2'' ''S'',
            Card ''4'' ''D''])
   \<and> Card ''4'' ''D'' \<in> movable_spec example_board
   \<and> Card ''3'' ''C'' \<notin> movable_spec example_board"
proof -
  from movable_derivation[OF example_reachable] example_movable
  have eq: "Some ` movable_spec example_board =
      set (map Some [Card ''2'' ''C'', Card ''2'' ''D'', Card ''2'' ''H'', Card ''2'' ''S'',
            Card ''4'' ''D''])"
    by auto
  have "Some (Card ''4'' ''D'') \<in> Some ` movable_spec example_board"
    "Some (Card ''3'' ''C'') \<notin> Some ` movable_spec example_board"
    unfolding eq by simp_all
  then have "Card ''4'' ''D'' \<in> movable_spec example_board"
    "Card ''3'' ''C'' \<notin> movable_spec example_board"
    by blast+
  with example_reachable example_movable show ?thesis by simp
qed

section \<open>Moves\<close>

text \<open>
  Claim C3, as stated, fails: on the example board the two of clubs heads the first row
  and is finalized, the blank \<open>B1\<close> heads the second row, and \<open>move\<close> of the two of
  clubs exchanges the two.
\<close>

theorem finalized_two_displaced:
  "reachable example_board \<and> getFinalizedCards example_board = Inr clubs \<and>
   Card ''2'' ''C'' \<in> set clubs \<and>
   move (Card ''2'' ''C'') example_board = Inr moved_board \<and>
   pos example_board (Card ''2'' ''C'') = Some (0, 0) \<and>
   pos moved_board (Card ''2'' ''C'') = Some (1, 0)"
  using example_reachable example_finalized example_move example_pos(1) moved_pos(1)
  by (simp add: clubs_def)

text \<open>
  Claim C3, amended. In every reachable state, when \<open>move c\<close> returns, every finalized
  card other than \<open>c\<close> keeps its position and its cell, and so does \<open>c\<close> itself when it
  is finalized and its rank is not 2.
\<close>

theorem finalized_kept:
  assumes "reachable g" and "getFinalizedCards g = Inr f" and "move c g = Inr g'"
    and "d \<in> set f" and "d \<noteq> c \<or> rank c \<noteq> ''2''"
  shows "pos g' d = pos g d \<and> (\<exists>r k. pos g d = Some (r, k) \<and> rows g' ! r ! k = Some d)"
proof -
  from assms(1) have wf: "wellformed g" by (rule reachable_wellformed)
  have wf': "wellformed g'" using wf assms(3) by (rule move_wellformed)
  from move_keeps_finalized[OF wf assms(2-5)] have p: "pos g' d = pos g d" .
  from finalized_iff[OF wf] assms(2,4) obtain r k where
    fin: "finished g r k" "elem (rows g ! r) k = Some d" by auto
  from fin(1) have "r < length (rows g)" by (simp add: finished_def)
  from wf_elem_pos(1)[OF wf this fin(2)] have pd: "pos g d = Some (r, k)" .
  with p wf_pos[OF wf', of d r k] have "rows g' ! r ! k = Some d" by simp
  with p pd show ?thesis by simp
qed

theorem finalized_kept_witness:
  "reachable example_board \<and> getFinalizedCards example_board = Inr clubs \<and>
   move (Card ''2'' ''C'') example_board = Inr moved_board \<and>
   Card ''3'' ''C'' \<in> set clubs \<and> Card ''3'' ''C'' \<noteq> Card ''2'' ''C'' \<and>
   pos moved_board (Card ''3'' ''C'') = Some (0, 1) \<and>
   rows moved_board ! 0 ! 1 = Some (Card ''3'' ''C'')"
proof -
  have m: "Card ''3'' ''C'' \<in> set clubs" by (simp add: clubs_def)
  have n: "Card ''3'' ''C'' \<noteq> Card ''2'' ''C'' \<or> rank (Card ''2'' ''C'') \<noteq> ''2''" by simp
  from finalized_kept[OF example_reachable example_finalized example_move m n] example_pos(3)
  have "pos moved_board (Card ''3'' ''C'') = Some (0, 1)"
    "rows moved_board ! 0 ! 1 = Some (Card ''3'' ''C'')"
    by auto
  with example_reachable example_finalized example_move m show ?thesis by simp
qed

text \<open>
  Claim C4 fails on the code: before anything is dealt, \<open>move\<close> of the three of clubs
  reads \<open>self.rows[nextLowest.row].length\<close> with \<open>nextLowest.row\<close> \<open>null\<close> and throws,
  and \<open>move\<close> of a blank reads \<open>nextLowest.column\<close> with \<open>nextLowest\<close> \<open>null\<close> and
  throws.
\<close>

theorem move_undealt_predecessor_throws:
  "prevRank (Card ''3'' ''C'') = Some (Card ''2'' ''C'') \<and>
   pos initial (Card ''2'' ''C'') = None \<and>
   move (Card ''3'' ''C'') initial = Inl TypeError \<and>
   prevRank (Card ''B1'' ''B'') = None \<and>
   move (Card ''B1'' ''B'') initial = Inl TypeError"
proof -
  have a: "prevRank (Card ''3'' ''C'') = Some (Card ''2'' ''C'')" by code_simp
  have b: "prevRank (Card ''B1'' ''B'') = None" by code_simp
  have c: "pos initial (Card ''2'' ''C'') = None" by (simp add: initial_def)
  from a b c show ?thesis by (simp add: move_def)
qed

section \<open>Where move throws\<close>

text \<open>
  Two more facts hold in the reachable states: every card of the deck is in the stock
  or has a position, and while a blank is on the board the stock is empty.
\<close>

definition covered :: "game \<Rightarrow> bool" where
  "covered g \<longleftrightarrow>
     (\<forall>c\<in>set CARDS. c \<in> set (stock g) \<or> pos g c \<noteq> None) \<and>
     ((\<exists>b\<in>set getBlanks. pos g b \<noteq> None) \<longrightarrow> stock g = [])"

lemma dealRow_covers:
  "dealRow i row st p = Inr (row', st', p') \<Longrightarrow> c \<in> set st \<or> p c \<noteq> None
     \<Longrightarrow> c \<in> set st' \<or> p' c \<noteq> None"
proof (induction i row st p rule: dealRow.induct)
  case (1 i row st p)
  show ?case
  proof (cases "length row < 13")
    case True
    with "1.prems"(1) obtain d st2 where st: "st = d # st2"
      by (subst (asm) dealRow.simps) (auto split: list.splits)
    from "1.prems"(1) True st
    have r: "dealRow i (row @ [Some d]) st2 (p(d := Some (i, length row))) = Inr (row', st', p')"
      by (subst (asm) dealRow.simps) simp
    from "1.prems"(2) st
    have "c \<in> set st2 \<or> (p(d := Some (i, length row))) c \<noteq> None" by auto
    from "1.IH"[OF True st r this] show ?thesis .
  next
    case False
    with "1.prems"(1) have "st' = st" "p' = p"
      by (subst (asm) dealRow.simps, simp)+
    with "1.prems"(2) show ?thesis by simp
  qed
qed

lemma dealLoop_covers:
  "dealLoop i rs st p = Inr (rs', st', p') \<Longrightarrow> c \<in> set st \<or> p c \<noteq> None
     \<Longrightarrow> c \<in> set st' \<or> p' c \<noteq> None"
proof (induction rs arbitrary: i st p rs')
  case Nil
  then show ?case by simp
next
  case (Cons row rest)
  from Cons.prems(1) obtain row1 st1 p1 rs1 where
    a: "dealRow i row st p = Inr (row1, st1, p1)"
      "dealLoop (Suc i) rest st1 p1 = Inr (rs1, st', p')"
    by (auto split: sum.splits)
  from dealRow_covers[OF a(1) Cons.prems(2)] have "c \<in> set st1 \<or> p1 c \<noteq> None" .
  from Cons.IH[OF a(2) this] show ?case .
qed

lemma covered_initial: "covered initial"
  by (simp add: covered_def initial_def)

lemma covered_cleared:
  assumes wf: "wellformed g" and cov: "covered g" and f: "getFinalizedCards g = Inr f"
  shows "covered (cleared f g)"
proof -
  have "c \<in> set (stock (cleared f g)) \<or> pos (cleared f g) c \<noteq> None" if "c \<in> set CARDS" for c
  proof (cases "c \<in> set (stock g) \<or> Some c \<in> set (tails f g)")
    case True
    then have "c \<in> set (stock g) \<or> c \<in> the ` set (tails f g)" by force
    then show ?thesis by (auto simp: cleared_def)
  next
    case False
    with cov that show ?thesis by (auto simp: cleared_def covered_def)
  qed
  moreover have "\<forall>b\<in>set getBlanks. pos (cleared f g) b = None"
    using cleared_blank_unplaced[OF wf f] by (simp add: getBlanks_iff)
  ultimately show ?thesis by (simp add: covered_def)
qed

lemma covered_deal:
  assumes wf: "wellformed g" and cov: "covered g" and d: "deal rnd g = Inr g'"
  shows "covered g'"
proof -
  from d obtain m where m: "getMovableCards g = Inr m"
    by (auto simp: deal_def split: sum.splits)
  show ?thesis
  proof (cases "m = []")
    case False
    from deal_blocked[OF m False, of rnd] d cov show ?thesis by simp
  next
    case True
    from clearUnfinished_total[OF wf] obtain f where
      f: "getFinalizedCards g = Inr f" "clearUnfinished g = Inr (cleared f g)" by blast
    let ?self = "cleared f g"
    have wfs: "wellformed ?self" using wf by (rule cleared_wellformed)
    have covs: "covered ?self" using wf cov f(1) by (rule covered_cleared)
    from deal_dealt[OF wfs m[unfolded True] f(2), of rnd] d have st: "stock g' = []" by auto
    from d m True f(2) obtain rs st p where
      l: "dealLoop 0 (rows ?self) (shuffled rnd (stock ?self)) (pos ?self) = Inr (rs, st, p)"
        "g' = \<lparr> stock = st, rows = rs, deals = deals ?self + 1, pos = p \<rparr>"
      by (auto simp: deal_def split: sum.splits)
    have "c \<in> set (stock g') \<or> pos g' c \<noteq> None" if "c \<in> set CARDS" for c
    proof -
      from covs that have "c \<in> set (stock ?self) \<or> pos ?self c \<noteq> None"
        by (simp add: covered_def)
      moreover have "set (shuffled rnd (stock ?self)) = set (stock ?self)"
        using shuffled_mset[of rnd "stock ?self"] by (rule mset_eq_setD)
      ultimately have "c \<in> set (shuffled rnd (stock ?self)) \<or> pos ?self c \<noteq> None" by simp
      from dealLoop_covers[OF l(1) this] l(2) show ?thesis by simp
    qed
    with st show ?thesis by (simp add: covered_def)
  qed
qed

lemma covered_move:
  assumes wf: "wellformed g" and cov: "covered g" and mv: "move c g = Inr g'"
  shows "covered g'"
proof -
  from move_cases[OF wf mv] show ?thesis
  proof
    assume "g' = g"
    with cov show ?thesis by simp
  next
    assume "\<exists>d. d \<in> set getBlanks \<and> d \<noteq> c \<and> pos g c \<noteq> None \<and> pos g d \<noteq> None
              \<and> swap g c d = Inr g'"
    then obtain d r1 k1 r2 k2 where d: "d \<in> set getBlanks" "d \<noteq> c" "pos g c = Some (r1, k1)"
        "pos g d = Some (r2, k2)" "swap g c d = Inr g'"
      by auto
    from swap_placed[OF wf d(3,4) d(2)[symmetric]] d(5)
    have g': "stock g' = stock g" "pos g' = (pos g)(c := pos g d, d := pos g c)" by auto
    from cov d(1,4) have "stock g = []" by (auto simp: covered_def)
    moreover have "pos g' x \<noteq> None" if "x \<in> set CARDS" for x
      using cov that d(3,4) g' \<open>stock g = []\<close> by (auto simp: covered_def)
    ultimately show ?thesis using g' by (simp add: covered_def)
  qed
qed

lemma reachable_covered: "reachable g \<Longrightarrow> covered g"
proof (induction rule: reachable.induct)
  case r_initial
  show ?case by (rule covered_initial)
next
  case (r_deal g rnd g')
  from reachable_wellformed[OF r_deal(1)] r_deal(3,2) show ?case by (rule covered_deal)
next
  case (r_move g c g')
  from reachable_wellformed[OF r_move(1)] r_move(3,2) show ?case by (rule covered_move)
next
  case (r_clear g g')
  from reachable_wellformed[OF r_clear(1)] have wf: "wellformed g" .
  from clearUnfinished_total[OF wf] r_clear(2) obtain f where
    "getFinalizedCards g = Inr f" "g' = cleared f g" by auto
  with covered_cleared[OF wf r_clear(3)] show ?case by simp
qed

text \<open>
  In a reachable state \<open>move\<close> of a card of the deck returns whenever the card is a two
  or its \<open>prevRank\<close> has a position. So \<open>move\<close> throws only where it reads the
  position of \<open>prevRank\<close>, before it has written anything.
\<close>

lemma move_returns:
  assumes re: "reachable g" and c: "c \<in> set CARDS"
    and ok: "rank c = ''2'' \<or> (\<exists>p. prevRank c = Some p \<and> pos g p \<noteq> None)"
  shows "\<exists>g'. move c g = Inr g'"
proof -
  from re have wf: "wellformed g" by (rule reachable_wellformed)
  from re have cov: "covered g" by (rule reachable_covered)
  have sw: "\<exists>g'. swap g c d = Inr g'" if "d \<in> set getBlanks" "pos g d \<noteq> None" "d \<noteq> c" for d
  proof -
    from cov that(1,2) have "stock g = []" by (auto simp: covered_def)
    with cov c have "pos g c \<noteq> None" by (auto simp: covered_def)
    with that(2) obtain r1 k1 r2 k2 where "pos g c = Some (r1, k1)" "pos g d = Some (r2, k2)"
      by auto
    from swap_placed[OF wf this that(3)[symmetric]] show ?thesis by blast
  qed
  show ?thesis
  proof (cases "rank c = ''2''")
    case True
    define bfc where "bfc = sort_key (rowNum g) (filter (\<lambda>b. column g b = Some 0) getBlanks)"
    define after where "after = filter (\<lambda>b. rowNum g b > rowNum g c) bfc"
    have inb: "\<exists>g'. swap g c d = Inr g'" if "d \<in> set bfc" for d
    proof -
      from that have "d \<in> set getBlanks" "column g d = Some 0" by (auto simp: bfc_def)
      with blank_links[of d] True sw[of d] show ?thesis by (auto simp: column_def)
    qed
    show ?thesis
    proof (cases "bfc = []")
      case e: True
      with True show ?thesis by (simp add: move_def bfc_def Let_def)
    next
      case False
      then have h1: "hd bfc \<in> set bfc" by simp
      have h2: "hd after \<in> set bfc" if "after \<noteq> []"
        using hd_in_set[OF that] by (auto simp: after_def)
      from inb[OF h1] obtain g1 where g1: "swap g c (hd bfc) = Inr g1" by blast
      show ?thesis
      proof (cases "after = []")
        case e: True
        with True False g1 show ?thesis
          by (simp add: move_def Let_def bfc_def[symmetric] after_def[symmetric])
      next
        case ne: False
        from inb[OF h2[OF ne]] obtain g2 where "swap g c (hd after) = Inr g2" by blast
        with True False g1 ne show ?thesis
          by (simp add: move_def Let_def bfc_def[symmetric] after_def[symmetric])
      qed
    qed
  next
    case False
    with ok obtain p r k where p: "prevRank c = Some p" "pos g p = Some (r, k)" by auto
    from wf_elem(1)[OF wf p(2)] have r: "r < length (rows g)" .
    show ?thesis
    proof (cases "int k < int (length (rows g ! r)) - 1")
      case lt: True
      then have k1: "k + 1 < length (rows g ! r)" by simp
      from r wf_rows[OF wf] have "r < 4" by simp
      from wf_cell[OF wf this k1] k1 obtain d where
        d: "elem (rows g ! r) (k + 1) = Some d" "d \<in> set CARDS" "pos g d = Some (r, k + 1)"
        by (auto simp: elem_def)
      show ?thesis
      proof (cases "isBlank d")
        case True
        with d(2) have db: "d \<in> set getBlanks" by (simp add: getBlanks_iff)
        with blank_links[of d] p(1) have "d \<noteq> c" by auto
        from sw[OF db _ this] d(3) obtain g' where "swap g c d = Inr g'" by auto
        with False p r lt d(1) True show ?thesis by (simp add: move_def)
      next
        case nb: False
        with False p r lt d(1) show ?thesis by (simp add: move_def)
      qed
    next
      case ge: False
      with False p r show ?thesis by (simp add: move_def)
    qed
  qed
qed

section \<open>Clearing unblocks dealing\<close>

text \<open>
  Claim C10. In every reachable state no finalized card is a blank; after
  \<open>clearUnfinished\<close> every blank is in the stock and has no position, so
  \<open>getMovableCards\<close> of the result is empty and \<open>deal\<close> on the result, whatever the
  shuffle, is not blocked: it counts one more deal and fills every row.
\<close>

theorem clearing_unblocks_dealing:
  "reachable g \<Longrightarrow> clearUnfinished g = Inr g' \<Longrightarrow>
     (\<exists>f. getFinalizedCards g = Inr f \<and> (\<forall>c\<in>set f. \<not> isBlank c)) \<and>
     (\<forall>b\<in>set getBlanks. pos g' b = None \<and> b \<in> set (stock g')) \<and>
     getMovableCards g' = Inr [] \<and>
     (\<exists>g''. deal rnd g' = Inr g'' \<and> deals g'' = deals g' + 1 \<and> stock g'' = []
        \<and> (\<forall>row\<in>set (rows g''). length row = 13))"
proof -
  assume re: "reachable g" and cl: "clearUnfinished g = Inr g'"
  then have wf: "wellformed g" by (simp add: reachable_wellformed)
  from clearUnfinished_total[OF wf] cl obtain f where
    f: "getFinalizedCards g = Inr f" "g' = cleared f g" by auto
  have nb: "\<forall>c\<in>set f. \<not> isBlank c" using finalized_not_blank[OF wf f(1)] by blast
  have unplaced: "\<forall>b\<in>set getBlanks. pos g' b = None"
    using cleared_blank_unplaced[OF wf f(1)] f(2) by (simp add: getBlanks_iff)
  from re cl have "reachable g'" by (rule r_clear)
  then have "covered g'" by (rule reachable_covered)
  with unplaced have blanks: "\<forall>b\<in>set getBlanks. pos g' b = None \<and> b \<in> set (stock g')"
    by (auto simp: covered_def getBlanks_iff)
  from unplaced have mv: "getMovableCards g' = Inr []"
    by (simp add: getMovableCards_def movableLoop_unplaced)
  have wf': "wellformed g'" using wf cl by (rule clearUnfinished_wellformed)
  from clearUnfinished_twice[OF wf cl] have cl': "clearUnfinished g' = Inr g'" .
  from deal_dealt[OF wf' mv cl', of rnd] obtain g'' where
    "deal rnd g' = Inr g''" "deals g'' = deals g' + 1" "stock g'' = []"
    "\<forall>row\<in>set (rows g''). length row = 13" by blast
  with f(1) nb blanks mv show ?thesis by blast
qed

theorem clearing_unblocks_dealing_witness:
  "reachable example_board \<and> clearUnfinished example_board = Inr cleared_board \<and>
   pos cleared_board (Card ''B1'' ''B'') = None \<and>
   Card ''B1'' ''B'' \<in> set (stock cleared_board) \<and>
   getMovableCards cleared_board = Inr [] \<and>
   \<not> isl (deal example_choices cleared_board)"
proof -
  note c = clearing_unblocks_dealing[OF example_reachable example_clear, of example_choices]
  have "Card ''B1'' ''B'' \<in> set getBlanks" by (simp add: getBlanks_eq)
  with c have "pos cleared_board (Card ''B1'' ''B'') = None"
    "Card ''B1'' ''B'' \<in> set (stock cleared_board)" by blast+
  moreover from c have "getMovableCards cleared_board = Inr []" by blast
  moreover from c have "\<not> isl (deal example_choices cleared_board)" by auto
  ultimately show ?thesis using example_reachable example_clear by simp
qed

end
